theory Spec2Isabelle
  imports Complex_Main
begin

section \<open>Graph data (the JSON document shared by the analyzer scripts)\<close>

text \<open>
  A node and an edge are the dicts of the JSON document written by
  \<^verbatim>\<open>extract_dot_nodes.py\<close> and read by \<^verbatim>\<open>SearchPath.py\<close> and
  \<^verbatim>\<open>CalculateScore.py\<close>.  Every record has the keys \<^verbatim>\<open>parse_dot\<close> writes; ids, labels
  and types are strings.  A \<^verbatim>\<open>cost\<close>, \<^verbatim>\<open>stealth\<close> or \<^verbatim>\<open>centrality\<close> that is \<^verbatim>\<open>None\<close> is
  \<open>None\<close>.  A \<^verbatim>\<open>stealth\<close> is an integer, as the header of \<^verbatim>\<open>extract_dot_nodes.py\<close>
  documents it and as \<^verbatim>\<open>parse_dot\<close> writes it: the stealth values are averaged in
  floating point, and on integers the model follows that computation exactly
  (see \<open>to_double\<close> below).  A \<^verbatim>\<open>cost\<close> is only ever added up and a \<^verbatim>\<open>centrality\<close> only
  compared; they are rationals.
\<close>

record node =
  ID :: string
  Label :: string
  Type :: string
  Target :: "string list"
  Source :: "string list"
  centrality :: "rat option"

record edge =
  source :: string
  target :: string
  etype :: string
  cost :: "rat option"
  stealth :: "int option"

record graph =
  nodes :: "node list"
  edges :: "edge list"

section \<open>SearchPath.py: class DirectedGraphPathFinder\<close>

text \<open>\<^verbatim>\<open>self.nodes_info = {node['ID']: node for node in self.nodes}\<close>:
  a later node with the same ID replaces an earlier one.\<close>

definition nodes_info :: "graph \<Rightarrow> string \<rightharpoonup> node" where
  "nodes_info G = fold (\<lambda>n m. m(ID n \<mapsto> n)) (nodes G) Map.empty"

text \<open>\<^verbatim>\<open>_build_predecessor_map\<close>: a \<^verbatim>\<open>defaultdict(list)\<close>; an edge whose source or
  target is falsy (the empty string) is skipped.\<close>

definition add_pred :: "edge \<Rightarrow> (string \<rightharpoonup> string list) \<Rightarrow> (string \<rightharpoonup> string list)" where
  "add_pred e m =
     (if source e \<noteq> [] \<and> target e \<noteq> []
      then m(target e \<mapsto> (case m (target e) of None \<Rightarrow> [] | Some l \<Rightarrow> l) @ [source e])
      else m)"

definition build_predecessor_map :: "edge list \<Rightarrow> string \<rightharpoonup> string list" where
  "build_predecessor_map es = fold add_pred es Map.empty"

text \<open>\<^verbatim>\<open>self.predecessors_map.get(node_id, [])\<close>\<close>

definition predecessors :: "graph \<Rightarrow> string \<Rightarrow> string list" where
  "predecessors G c = (case build_predecessor_map (edges G) c of None \<Rightarrow> [] | Some l \<Rightarrow> l)"

text \<open>\<^verbatim>\<open>self.nodes_info.get(node_id, {}).get('Type') == 'AND'\<close>\<close>

definition is_and_type :: "graph \<Rightarrow> string \<Rightarrow> bool" where
  "is_and_type G x = (case nodes_info G x of None \<Rightarrow> False | Some n \<Rightarrow> Type n = ''AND'')"

text \<open>The local \<^verbatim>\<open>is_and_case\<close> of \<^verbatim>\<open>_find_paths_recursive\<close>: exactly one predecessor,
  and that one typed \<open>AND\<close>.\<close>

definition is_and_case :: "graph \<Rightarrow> string list \<Rightarrow> bool" where
  "is_and_case G preds = (length preds = 1 \<and> is_and_type G (hd preds))"

lemma fold_add_pred_sources:
  "fold add_pred es m t = Some l \<Longrightarrow>
     set l \<subseteq> set (map source es) \<union> (case m t of None \<Rightarrow> {} | Some l0 \<Rightarrow> set l0)"
proof (induction es arbitrary: m l)
  case Nil
  then show ?case by simp
next
  case (Cons e es)
  from Cons.IH [OF Cons.prems [simplified]]
  show ?case
    by (auto simp: add_pred_def split: if_splits option.splits)
qed

lemma predecessors_sources:
  assumes "p \<in> set (predecessors G c)"
  shows "p \<in> set (map source (edges G))"
proof (cases "build_predecessor_map (edges G) c")
  case None
  with assms show ?thesis by (simp add: predecessors_def)
next
  case (Some l)
  with assms have "p \<in> set l" by (simp add: predecessors_def)
  moreover have "set l \<subseteq> set (map source (edges G))"
    using fold_add_pred_sources [of "edges G" Map.empty c l] Some
    by (simp add: build_predecessor_map_def)
  ultimately show ?thesis by blast
qed

text \<open>
  \<^verbatim>\<open>_find_paths_recursive(current_node_id, path_from_target, all_backward_paths)\<close>.
  The third argument is a list that is only ever appended to; the model returns the
  paths one call appends, in order, and the caller concatenates them.
\<close>

function find_paths_recursive :: "graph \<Rightarrow> string \<Rightarrow> string list \<Rightarrow> string list list" where
  "find_paths_recursive G current_node_id path_from_target =
     (if current_node_id \<in> set path_from_target then [path_from_target]
      else if predecessors G current_node_id = []
      then [current_node_id # path_from_target]
      else if is_and_case G (predecessors G current_node_id)
      then (if predecessors G (hd (predecessors G current_node_id)) = []
            then [hd (predecessors G current_node_id) # current_node_id # path_from_target]
            else concat (map (\<lambda>input_id.
                   find_paths_recursive G input_id
                     (hd (predecessors G current_node_id) # current_node_id # path_from_target))
                   (predecessors G (hd (predecessors G current_node_id)))))
      else concat (map (\<lambda>pred_id.
                   find_paths_recursive G pred_id (current_node_id # path_from_target))
                   (predecessors G current_node_id)))"
  by pat_completeness auto

definition unvisited :: "graph \<Rightarrow> string \<Rightarrow> string list \<Rightarrow> nat" where
  "unvisited G c path = card ((set (map source (edges G)) \<union> {c}) - set path)"

lemma unvisited_step:
  assumes "c \<notin> set path" and "p \<in> set (map source (edges G))"
  shows "unvisited G p (c # path) < unvisited G c path"
proof -
  let ?S = "set (map source (edges G))"
  have "(?S \<union> {p}) - set (c # path) \<subset> (?S \<union> {c}) - set path"
    using assms by auto
  then show ?thesis
    unfolding unvisited_def by (intro psubset_card_mono) auto
qed

lemma unvisited_step_and:
  assumes "c \<notin> set path" and "p \<in> set (map source (edges G))"
  shows "unvisited G p (g # c # path) < unvisited G c path"
proof -
  let ?S = "set (map source (edges G))"
  have "(?S \<union> {p}) - set (g # c # path) \<subset> (?S \<union> {c}) - set path"
    using assms by auto
  then show ?thesis
    unfolding unvisited_def by (intro psubset_card_mono) auto
qed

termination find_paths_recursive
proof (relation "measure (\<lambda>(G, c, path). unvisited G c path)")
  show "wf (measure (\<lambda>(G, c, path). unvisited G c path))" by simp
next
  fix G c path input_id
  assume "c \<notin> set path" "input_id \<in> set (predecessors G (hd (predecessors G c)))"
  then show "((G, input_id, hd (predecessors G c) # c # path), (G, c, path))
               \<in> measure (\<lambda>(G, c, path). unvisited G c path)"
    using unvisited_step_and [OF _ predecessors_sources] by simp
next
  fix G c path pred_id
  assume "c \<notin> set path" "pred_id \<in> set (predecessors G c)"
  then show "((G, pred_id, c # path), (G, c, path))
               \<in> measure (\<lambda>(G, c, path). unvisited G c path)"
    using unvisited_step [OF _ predecessors_sources] by simp
qed

declare find_paths_recursive.simps [simp del]

text \<open>\<^verbatim>\<open>find_all_paths_to_target\<close>: the unknown target prints a message and returns
  the empty list; otherwise every collected list is reversed.\<close>

definition find_all_paths_to_target :: "graph \<Rightarrow> string \<Rightarrow> string list list" where
  "find_all_paths_to_target G target_node_id =
     (if nodes_info G target_node_id = None then []
      else map rev (find_paths_recursive G target_node_id []))"

text \<open>
  The same function with a bound on the number of nested activations, as the
  interpreter's recursion limit imposes one: \<open>None\<close> is \<^verbatim>\<open>RecursionError\<close>, raised by
  the first call that would exceed the bound.
\<close>

fun collect :: "'a list option list \<Rightarrow> 'a list option" where
  "collect [] = Some []"
| "collect (r # rs) =
     (case r of None \<Rightarrow> None
      | Some a \<Rightarrow> (case collect rs of None \<Rightarrow> None | Some b \<Rightarrow> Some (a @ b)))"

fun find_paths_bounded :: "nat \<Rightarrow> graph \<Rightarrow> string \<Rightarrow> string list \<Rightarrow> string list list option" where
  "find_paths_bounded 0 G current_node_id path_from_target = None"
| "find_paths_bounded (Suc n) G current_node_id path_from_target =
     (if current_node_id \<in> set path_from_target then Some [path_from_target]
      else if predecessors G current_node_id = []
      then Some [current_node_id # path_from_target]
      else if is_and_case G (predecessors G current_node_id)
      then (if predecessors G (hd (predecessors G current_node_id)) = []
            then Some [hd (predecessors G current_node_id) # current_node_id # path_from_target]
            else collect (map (\<lambda>input_id.
                   find_paths_bounded n G input_id
                     (hd (predecessors G current_node_id) # current_node_id # path_from_target))
                   (predecessors G (hd (predecessors G current_node_id)))))
      else collect (map (\<lambda>pred_id.
                   find_paths_bounded n G pred_id (current_node_id # path_from_target))
                   (predecessors G current_node_id)))"

subsection \<open>Path trees\<close>

text \<open>A tree node is the dict \<^verbatim>\<open>{'id': ..., 'children': [...]}\<close>.\<close>

datatype tree = Tree (tid: string) (children: "tree list")

text \<open>
  \<^verbatim>\<open>_build_forest_from_paths\<close> walks each path from the root list downwards, reusing the
  first child with the same id and appending a new child otherwise.  The roots are
  found through \<^verbatim>\<open>root_map\<close>, the children by a linear search; both keep ids
  unique among siblings, so one insertion function serves both levels.  An empty path
  is skipped.
\<close>

fun insert_path :: "string list \<Rightarrow> tree list \<Rightarrow> tree list" where
  "insert_path [] ts = ts"
| "insert_path (x # xs) [] = [Tree x (insert_path xs [])]"
| "insert_path (x # xs) (t # ts) =
     (if tid t = x then Tree x (insert_path xs (children t)) # ts
      else t # insert_path (x # xs) ts)"

definition build_forest_from_paths :: "string list list \<Rightarrow> tree list" where
  "build_forest_from_paths paths = fold insert_path paths []"

text \<open>\<^verbatim>\<open>_split_tree_at_or_nodes\<close>\<close>

fun split_tree_at_or_nodes :: "graph \<Rightarrow> tree \<Rightarrow> tree list" where
  "split_tree_at_or_nodes G (Tree i cs) =
     (if cs = [] then [Tree i cs]
      else if is_and_type G i
      then [Tree i (concat (map (split_tree_at_or_nodes G) cs))]
      else map (\<lambda>sub_tree. Tree i [sub_tree]) (concat (map (split_tree_at_or_nodes G) cs)))"

subsection \<open>Path structures\<close>

text \<open>A path structure is a nested Python list of node ids.\<close>

datatype pstruct = Atom string | Nest "pstruct list"

fun is_list :: "pstruct \<Rightarrow> bool" where
  "is_list (Nest xs) = True"
| "is_list (Atom s) = False"

text \<open>\<^verbatim>\<open>_convert_tree_to_list\<close> always returns a list; the model returns its items.\<close>

fun convert_tree_to_list :: "graph \<Rightarrow> tree \<Rightarrow> pstruct list" where
  "convert_tree_to_list G (Tree i []) = [Atom i]"
| "convert_tree_to_list G (Tree i (c # cs)) =
     (if is_and_type G i
      then [Atom i, Nest (map (\<lambda>child. Nest (convert_tree_to_list G child)) (c # cs))]
      else Atom i # convert_tree_to_list G c)"

text \<open>\<^verbatim>\<open>reverse_nested_list\<close>, local to \<^verbatim>\<open>get_paths_as_lists\<close>\<close>

fun reverse_nested_list :: "pstruct \<Rightarrow> pstruct" where
  "reverse_nested_list (Atom s) = Atom s"
| "reverse_nested_list (Nest xs) = Nest (map reverse_nested_list (rev xs))"

definition get_paths_as_lists :: "graph \<Rightarrow> string \<Rightarrow> pstruct list" where
  "get_paths_as_lists G target_id =
     (let all_linear_paths = find_all_paths_to_target G target_id in
      if all_linear_paths = [] then []
      else map (\<lambda>tree_root. reverse_nested_list (Nest (convert_tree_to_list G tree_root)))
             (concat (map (split_tree_at_or_nodes G) (build_forest_from_paths all_linear_paths))))"

section \<open>CalculateScore.py\<close>

text \<open>\<^verbatim>\<open>load_graph_info\<close>: two dict comprehensions over the JSON lists; a later record
  with the same key replaces an earlier one.\<close>

type_synonym node_dict = "string \<rightharpoonup> node"
type_synonym edge_dict = "string \<times> string \<rightharpoonup> edge"

definition load_graph_info :: "graph \<Rightarrow> node_dict \<times> edge_dict" where
  "load_graph_info G =
     (fold (\<lambda>n m. m(ID n \<mapsto> n)) (nodes G) Map.empty,
      fold (\<lambda>e m. m((source e, target e) \<mapsto> e)) (edges G) Map.empty)"

subsection \<open>Hop extraction\<close>

text \<open>\<^verbatim>\<open>get_first_nodes\<close>.  In a list that is not all lists only the first item is
  looked at (the \<^verbatim>\<open>for\<close> loop returns in its first iteration).\<close>

fun get_first_nodes :: "pstruct \<Rightarrow> string list" where
  "get_first_nodes (Atom s) = [s]"
| "get_first_nodes (Nest []) = []"
| "get_first_nodes (Nest (x # xs)) =
     (if list_all is_list (x # xs) then concat (map get_first_nodes (x # xs))
      else get_first_nodes x)"

text \<open>
  A hop is the tuple \<^verbatim>\<open>(src, dst)\<close> appended to \<^verbatim>\<open>hops\<close>.  Its second component is
  always a node id.  Its first component is \<^verbatim>\<open>prev\<close> or a branch end; \<^verbatim>\<open>prev\<close> is set
  to \<^verbatim>\<open>next_node\<close> after a nested list, and \<^verbatim>\<open>next_node\<close> may itself be a list, so the
  first component is a path structure.

  \<^verbatim>\<open>extract_hops(path, parent, hops)\<close> is always called with \<^verbatim>\<open>parent=None\<close>.  It
  appends to \<^verbatim>\<open>hops\<close> and returns the ends of \<^verbatim>\<open>path\<close>: one node id or a flat list of
  node ids.  Every caller turns a single id into a one-element list, so the model
  returns the list.  The model returns the pair of these ends and the hops appended
  by the call, in order.  \<open>hops_loop prev rest\<close> is the \<^verbatim>\<open>while\<close> loop at the items
  \<open>rest\<close> still to visit.
\<close>

type_synonym hop = "pstruct \<times> string"

lemma size_member_le: "x \<in> set xs \<Longrightarrow> size x \<le> size_list size xs"
  by (induction xs) auto

lemma size_last_less: "size (last (x # xs)) < Suc (size_list size (x # xs))"
  using size_member_le [of "last (x # xs)" "x # xs"] last_in_set [of "x # xs"]
  by (simp del: last.simps)

function (sequential) extract_hops :: "pstruct \<Rightarrow> string list \<times> hop list"
  and hops_loop :: "pstruct option \<Rightarrow> pstruct list \<Rightarrow> hop list" where
  "extract_hops (Atom s) = ([s], [])"
| "extract_hops (Nest []) = ([], [])"
| "extract_hops (Nest (x # xs)) =
     (if list_all is_list (x # xs)
      then (concat (map (\<lambda>branch. fst (extract_hops branch)) (x # xs)),
            concat (map (\<lambda>branch. snd (extract_hops branch)) (x # xs)))
      else (fst (extract_hops (last (x # xs))), hops_loop None (x # xs)))"
| "hops_loop prev [] = []"
| "hops_loop prev (Atom s # rest) =
     (case prev of None \<Rightarrow> [] | Some p \<Rightarrow> if p \<noteq> Atom s then [(p, s)] else [])
     @ hops_loop (Some (Atom s)) rest"
| "hops_loop prev (Nest ys # rest) =
     (case prev of None \<Rightarrow> [] | Some p \<Rightarrow> map (\<lambda>b. (p, b)) (get_first_nodes (Nest ys)))
     @ snd (extract_hops (Nest ys))
     @ (case rest of [] \<Rightarrow> []
        | next_node # _ \<Rightarrow>
            concat (map (\<lambda>e. case next_node of
                                Nest _ \<Rightarrow> map (\<lambda>b. (Atom e, b)) (get_first_nodes next_node)
                              | Atom t \<Rightarrow> [(Atom e, t)])
                    (fst (extract_hops (Nest ys)))))
     @ hops_loop (case rest of [] \<Rightarrow> None | next_node # _ \<Rightarrow> Some next_node) rest"
  by pat_completeness auto

termination extract_hops
proof (relation "measure (case_sum size (\<lambda>p. size_list size (snd p)))", goal_cases)
  case (4 x xs)
  then show ?case using size_last_less [of x xs] by simp
qed (auto simp: less_Suc_eq_le dest: size_member_le)

subsection \<open>Metrics\<close>

text \<open>
  \<^verbatim>\<open>edge_dict.get((src, dst), None)\<close>: a tuple holding a list cannot be hashed, so a hop
  whose first component is a list raises \<^verbatim>\<open>TypeError\<close>.
\<close>

datatype error = TypeError | OverflowError

fun edge_get :: "edge_dict \<Rightarrow> hop \<Rightarrow> error + edge option" where
  "edge_get ed (Atom src, dst) = Inr (ed (src, dst))"
| "edge_get ed (Nest xs, dst) = Inl TypeError"

text \<open>The loop of \<^verbatim>\<open>calc_path_cost\<close> over the hops, with the running \<^verbatim>\<open>total_cost\<close>.\<close>

fun cost_loop :: "edge_dict \<Rightarrow> hop list \<Rightarrow> rat \<Rightarrow> error + rat" where
  "cost_loop ed [] total_cost = Inr total_cost"
| "cost_loop ed (h # hs) total_cost =
     (case edge_get ed h of
        Inl err \<Rightarrow> Inl err
      | Inr None \<Rightarrow> cost_loop ed hs total_cost
      | Inr (Some e) \<Rightarrow>
          (case cost e of
             None \<Rightarrow> cost_loop ed hs total_cost
           | Some c \<Rightarrow> cost_loop ed hs (total_cost + c)))"

text \<open>\<^verbatim>\<open>calc_path_cost\<close>; the arguments \<^verbatim>\<open>node_dict\<close> and \<^verbatim>\<open>parent\<close> are not used by
  the source and are left out here and below.\<close>

definition calc_path_cost :: "pstruct \<Rightarrow> edge_dict \<Rightarrow> error + rat" where
  "calc_path_cost path ed = cost_loop ed (snd (extract_hops path)) 0"

text \<open>The loop of \<^verbatim>\<open>calc_path_stealth\<close>, with the list \<^verbatim>\<open>stealth_values\<close> built so far.\<close>

fun stealth_loop :: "edge_dict \<Rightarrow> hop list \<Rightarrow> int list \<Rightarrow> error + int list" where
  "stealth_loop ed [] stealth_values = Inr stealth_values"
| "stealth_loop ed (h # hs) stealth_values =
     (case edge_get ed h of
        Inl err \<Rightarrow> Inl err
      | Inr None \<Rightarrow> stealth_loop ed hs stealth_values
      | Inr (Some e) \<Rightarrow>
          (case stealth e of
             None \<Rightarrow> stealth_loop ed hs stealth_values
           | Some v \<Rightarrow> stealth_loop ed hs (stealth_values @ [v])))"

subsubsection \<open>Floating point\<close>

text \<open>
  A Python \<^verbatim>\<open>float\<close> is an IEEE 754 binary64 number; the model represents it by its
  exact value, a rational.  \<open>round_half_even\<close> is the nearest integer, a tie going to
  the even one.
\<close>

definition round_half_even :: "rat \<Rightarrow> int" where
  "round_half_even y =
     (let f = \<lfloor>y\<rfloor>; d = y - of_int f in
      if d < 1 / 2 then f else if 1 / 2 < d then f + 1 else if even f then f else f + 1)"

text \<open>\<^verbatim>\<open>int.bit_length\<close>, and with it the integer part of the binary logarithm of a
  positive rational (lemma \<open>floor_log2_bounds\<close> below).\<close>

fun bit_length :: "nat \<Rightarrow> nat" where
  "bit_length n = (if n = 0 then 0 else Suc (bit_length (n div 2)))"

declare bit_length.simps [simp del]

definition floor_log2 :: "rat \<Rightarrow> int" where
  "floor_log2 a =
     (if 1 \<le> a then int (bit_length (nat \<lfloor>a\<rfloor>)) - 1
      else - int (bit_length (nat (\<lceil>1 / a\<rceil> - 1))))"

text \<open>
  \<open>to_double x\<close> is the binary64 number nearest to \<open>x\<close>, a tie going to the even
  significand.  With \<open>p = floor_log2 \<bar>x\<bar>\<close>, a nonzero \<open>x\<close> is rounded to a multiple of
  \<open>2 powi (p - 52)\<close>, which leaves 53 significant bits, and to a multiple of
  \<open>2 powi (- 1074)\<close> in the subnormal range.  The exponent is not bounded above here;
  the one operation that can leave the range, the division, checks for it.
\<close>

definition to_double :: "rat \<Rightarrow> rat" where
  "to_double x =
     (if x = 0 then 0
      else let e = max (floor_log2 \<bar>x\<bar> - 52) (- 1074)
           in of_int (round_half_even (x / 2 powi e)) * 2 powi e)"

text \<open>
  \<^verbatim>\<open>a / b\<close> on two \<^verbatim>\<open>int\<close>s, for \<open>b \<noteq> 0\<close>: the quotient correctly rounded to a
  \<^verbatim>\<open>float\<close>, and \<^verbatim>\<open>OverflowError\<close> when the rounded quotient is beyond the largest
  \<^verbatim>\<open>float\<close>, that is when its magnitude reaches \<open>2 ^ 1024\<close>.
\<close>

definition true_divide :: "int \<Rightarrow> int \<Rightarrow> error + rat" where
  "true_divide a b =
     (if 2 ^ 1024 \<le> \<bar>to_double (of_int a / of_int b)\<bar> then Inl OverflowError
      else Inr (to_double (of_int a / of_int b)))"

text \<open>
  \<^verbatim>\<open>round(x, 3)\<close> on a \<^verbatim>\<open>float\<close>: the exact value of \<open>x\<close> is rounded to the nearest
  multiple of \<open>1/1000\<close>, a tie going to the even multiple, and that decimal number is
  read back as the nearest \<^verbatim>\<open>float\<close>.
\<close>

definition nearest_thousandth :: "rat \<Rightarrow> rat" where
  "nearest_thousandth x = of_int (round_half_even (x * 1000)) / 1000"

definition py_round3 :: "rat \<Rightarrow> rat" where
  "py_round3 x = to_double (nearest_thousandth x)"

text \<open>\<^verbatim>\<open>calc_path_stealth\<close>: \<^verbatim>\<open>sum\<close> of integers is exact, \<^verbatim>\<open>len\<close> is not zero where the
  division is reached.\<close>

definition calc_path_stealth :: "pstruct \<Rightarrow> edge_dict \<Rightarrow> error + rat option" where
  "calc_path_stealth path ed =
     (case stealth_loop ed (snd (extract_hops path)) [] of
        Inl err \<Rightarrow> Inl err
      | Inr stealth_values \<Rightarrow>
          if stealth_values = [] then Inr None
          else (case true_divide (sum_list stealth_values) (int (length stealth_values)) of
                  Inl err \<Rightarrow> Inl err
                | Inr mean \<Rightarrow> Inr (Some (py_round3 mean))))"

text \<open>\<^verbatim>\<open>s.startswith(p)\<close> on strings\<close>

definition startswith :: "string \<Rightarrow> string \<Rightarrow> bool" where
  "startswith s p = (take (length p) s = p)"

text \<open>\<^verbatim>\<open>calc_path_length\<close> with its two local functions.\<close>

fun count_nodes :: "pstruct \<Rightarrow> nat" where
  "count_nodes (Atom s) = 1"
| "count_nodes (Nest xs) =
     (if list_all is_list xs
      then (case map count_nodes xs of [] \<Rightarrow> 0 | v # vs \<Rightarrow> fold max vs v)
      else sum_list (map count_nodes xs))"

fun count_logic_nodes :: "pstruct \<Rightarrow> nat" where
  "count_logic_nodes (Atom s) = (if startswith s ''LOGIC_'' then 1 else 0)"
| "count_logic_nodes (Nest xs) = sum_list (map count_logic_nodes xs)"

definition calc_path_length :: "pstruct \<Rightarrow> int" where
  "calc_path_length path = int (count_nodes path) - int (count_logic_nodes path) - 1"

text \<open>\<^verbatim>\<open>extract_all_nodes_and_centrality\<close> and \<^verbatim>\<open>calc_path_centrality\<close>\<close>

fun extract_all_nodes_and_centrality :: "pstruct \<Rightarrow> node_dict \<Rightarrow> (string \<times> rat option) list" where
  "extract_all_nodes_and_centrality (Atom s) nd =
     [(s, case nd s of None \<Rightarrow> None | Some n \<Rightarrow> centrality n)]"
| "extract_all_nodes_and_centrality (Nest xs) nd =
     concat (map (\<lambda>item. extract_all_nodes_and_centrality item nd) xs)"

definition calc_path_centrality :: "pstruct \<Rightarrow> node_dict \<Rightarrow> rat option" where
  "calc_path_centrality path nd =
     (case concat (map (\<lambda>(_, c). case c of None \<Rightarrow> [] | Some v \<Rightarrow> [v])
                    (extract_all_nodes_and_centrality path nd)) of
        [] \<Rightarrow> None
      | v # vs \<Rightarrow> Some (fold max vs v))"

text \<open>\<^verbatim>\<open>analyze_path\<close>; the first component of its tuple, \<^verbatim>\<open>str(path)\<close>, is left out.\<close>

definition analyze_path :: "pstruct \<Rightarrow> node_dict \<Rightarrow> edge_dict \<Rightarrow> error + rat \<times> rat option \<times> int \<times> rat option" where
  "analyze_path path nd ed =
     (case calc_path_cost path ed of
        Inl err \<Rightarrow> Inl err
      | Inr total_cost \<Rightarrow>
          (case calc_path_stealth path ed of
             Inl err \<Rightarrow> Inl err
           | Inr avg_stealth \<Rightarrow>
               Inr (total_cost, avg_stealth, calc_path_length path, calc_path_centrality path nd)))"

section \<open>extract_dot_nodes.py: parse_dot\<close>

text \<open>
  The regular expressions of \<^verbatim>\<open>parse_dot\<close> are not modelled: a line of the DOT file is
  given by what they extract from it.  \<open>EdgeLine src tgt\<close> is a line containing
  \<^verbatim>\<open>->\<close> that \<^verbatim>\<open>edge_pattern\<close> matches with these two groups; \<open>NodeLine node_id label\<close>
  is a line without \<^verbatim>\<open>->\<close> whose leading identifier and label are these;
  \<open>OtherLine\<close> is every line that is skipped or matched by no pattern.
\<close>

datatype dot_line = EdgeLine string string | NodeLine string string | OtherLine

text \<open>\<^verbatim>\<open>sub in s\<close> on strings\<close>

fun contains :: "string \<Rightarrow> string \<Rightarrow> bool" where
  "contains [] sub = (sub = [])"
| "contains (c # cs) sub = (startswith (c # cs) sub \<or> contains cs sub)"

text \<open>The type a node line gets; \<open>None\<close> when the line starts with none of the four
  prefixes, so that \<^verbatim>\<open>node_id\<close> stays \<^verbatim>\<open>None\<close>.\<close>

definition node_type_of :: "string \<Rightarrow> string \<Rightarrow> string option" where
  "node_type_of node_id label =
     (if startswith node_id ''CH_''
      then (if contains label ''[Physical]'' then Some ''physical_channel''
            else if contains label ''[System]'' then Some ''system_channel''
            else Some ''channel'')
      else if startswith node_id ''A_'' then Some ''action''
      else if startswith node_id ''T_'' then Some ''trigger''
      else if startswith node_id ''LOGIC_''
      then (if contains node_id ''AND'' then Some ''AND''
            else if contains node_id ''OR'' then Some ''OR''
            else Some ''logic'')
      else None)"

text \<open>
  \<^verbatim>\<open>nodes\<close> is a dict in insertion order: assigning to a key that is present replaces
  the value where it stands.
\<close>

type_synonym node_table = "(string \<times> node) list"

fun dict_set :: "string \<Rightarrow> node \<Rightarrow> node_table \<Rightarrow> node_table" where
  "dict_set k v [] = [(k, v)]"
| "dict_set k v (p # ps) = (if fst p = k then (k, v) # ps else p # dict_set k v ps)"

text \<open>\<^verbatim>\<open>nodes.get(x, {}).get("Type", "")\<close>\<close>

definition type_or_empty :: "node_table \<Rightarrow> string \<Rightarrow> string" where
  "type_or_empty ns x = (case map_of ns x of None \<Rightarrow> [] | Some n \<Rightarrow> Type n)"

text \<open>The edge record appended for an edge line, from the nodes declared so far.\<close>

definition edge_record :: "node_table \<Rightarrow> string \<Rightarrow> string \<Rightarrow> edge" where
  "edge_record ns src tgt =
     (if startswith src ''LOGIC_''
      then \<lparr>source = src, target = tgt, etype = ''explicit'', cost = Some 1, stealth = Some 1\<rparr>
      else if startswith tgt ''LOGIC_''
      then \<lparr>source = src, target = tgt, etype = ''explicit'', cost = None, stealth = None\<rparr>
      else if type_or_empty ns src = ''physical_channel'' \<or> type_or_empty ns tgt = ''physical_channel''
      then \<lparr>source = src, target = tgt, etype = ''physical_implicit'', cost = Some 5, stealth = Some 3\<rparr>
      else if type_or_empty ns src = ''system_channel'' \<or> type_or_empty ns tgt = ''system_channel''
      then \<lparr>source = src, target = tgt, etype = ''system_implicit'', cost = Some 3, stealth = Some 2\<rparr>
      else \<lparr>source = src, target = tgt, etype = ''explicit'', cost = Some 1, stealth = Some 1\<rparr>)"

text \<open>One iteration of the loop over the lines, on the pair \<^verbatim>\<open>(nodes, edges)\<close>.\<close>

fun parse_line :: "dot_line \<Rightarrow> node_table \<times> edge list \<Rightarrow> node_table \<times> edge list" where
  "parse_line (EdgeLine src tgt) (ns, es) = (ns, es @ [edge_record ns src tgt])"
| "parse_line (NodeLine node_id label) (ns, es) =
     (case node_type_of node_id label of
        None \<Rightarrow> (ns, es)
      | Some node_type \<Rightarrow>
          (dict_set node_id
             \<lparr>ID = node_id, Label = label, Type = node_type, Target = [], Source = [],
              centrality = Some 0\<rparr> ns, es))"
| "parse_line OtherLine (ns, es) = (ns, es)"

text \<open>The loop that fills the \<^verbatim>\<open>Target\<close> and \<^verbatim>\<open>Source\<close> lists, one edge at a time.\<close>

definition add_links :: "edge \<Rightarrow> node_table \<Rightarrow> node_table" where
  "add_links e ns =
     map (\<lambda>(k, n). (k, n\<lparr>Target := Target n @ (if k = source e then [target e] else []),
                          Source := Source n @ (if k = target e then [source e] else [])\<rparr>)) ns"

text \<open>
  \<^verbatim>\<open>nx.betweenness_centrality\<close> is library code and a parameter \<open>bc\<close> here: from the
  ids of the nodes kept in the subgraph and the edges of the graph to the dict of
  centralities.  The last loop writes every node's \<^verbatim>\<open>centrality\<close>.
\<close>

definition is_channel_type :: "string \<Rightarrow> bool" where
  "is_channel_type t = (t = ''physical_channel'' \<or> t = ''system_channel'' \<or> t = ''channel'')"

definition set_centrality :: "(string \<rightharpoonup> rat) \<Rightarrow> string \<times> node \<Rightarrow> string \<times> node" where
  "set_centrality cm = (\<lambda>(k, n).
     (k, if Type n \<noteq> ''AND'' \<and> \<not> is_channel_type (Type n)
         then n\<lparr>centrality := Some (case cm k of None \<Rightarrow> 0 | Some v \<Rightarrow> v)\<rparr>
         else n\<lparr>centrality := Some 0\<rparr>))"

definition parse_dot ::
  "(string list \<Rightarrow> (string \<times> string) list \<Rightarrow> string \<rightharpoonup> rat) \<Rightarrow> dot_line list \<Rightarrow> graph" where
  "parse_dot bc lines =
     (let (ns, es) = fold parse_line lines ([], []);
          linked = fold add_links es ns;
          non_and_nodes = map fst (filter (\<lambda>(k, n). Type n \<noteq> ''AND'') linked);
          cm = bc non_and_nodes (map (\<lambda>e. (source e, target e)) es)
      in \<lparr>nodes = map (\<lambda>p. snd (set_centrality cm p)) linked, edges = es\<rparr>)"

section \<open>Graphs used in the examples\<close>

definition chain_edges :: "edge list" where
  "chain_edges =
     [\<lparr>source = ''A'', target = ''B'', etype = ''physical_implicit'', cost = Some 5, stealth = Some 3\<rparr>,
      \<lparr>source = ''B'', target = ''T'', etype = ''system_implicit'', cost = Some 3, stealth = Some 2\<rparr>]"

definition plain_node :: "string \<Rightarrow> string \<Rightarrow> node" where
  "plain_node i t = \<lparr>ID = i, Label = i, Type = t, Target = [], Source = [], centrality = Some 0\<rparr>"

definition chain_graph :: graph where
  "chain_graph =
     \<lparr>nodes = [plain_node ''A'' ''trigger'', plain_node ''B'' ''physical_channel'',
               plain_node ''T'' ''action''],
      edges = chain_edges\<rparr>"

definition and_pairs :: "string \<Rightarrow> (string \<times> string) list" where
  "and_pairs gate = [(''P1'', gate), (''P2'', ''Q''), (''Q'', gate), (gate, ''T'')]"

definition and_graph :: "string \<Rightarrow> graph" where
  "and_graph gate =
     \<lparr>nodes = [plain_node ''P1'' ''trigger'', plain_node ''P2'' ''trigger'',
               plain_node ''Q'' ''action'', plain_node gate ''AND'', plain_node ''T'' ''action''],
      edges =
        [\<lparr>source = ''P1'', target = gate, etype = ''explicit'', cost = None, stealth = None\<rparr>,
         \<lparr>source = ''P2'', target = ''Q'', etype = ''explicit'', cost = Some 1, stealth = Some 1\<rparr>,
         \<lparr>source = ''Q'', target = gate, etype = ''explicit'', cost = None, stealth = None\<rparr>,
         \<lparr>source = gate, target = ''T'', etype = ''explicit'', cost = Some 1, stealth = Some 1\<rparr>]\<rparr>"

definition cycle_graph :: graph where
  "cycle_graph =
     \<lparr>nodes = [plain_node ''X'' ''action'', plain_node ''Y'' ''trigger''],
      edges =
        [\<lparr>source = ''X'', target = ''Y'', etype = ''explicit'', cost = Some 1, stealth = Some 1\<rparr>,
         \<lparr>source = ''Y'', target = ''X'', etype = ''explicit'', cost = Some 1, stealth = Some 1\<rparr>]\<rparr>"

definition slow_graph :: graph where
  "slow_graph =
     \<lparr>nodes = [],
      edges =
        [\<lparr>source = ''A'', target = ''B'', etype = ''explicit'', cost = Some 1, stealth = Some 1\<rparr>,
         \<lparr>source = ''B'', target = ''C'', etype = ''explicit'', cost = Some 1, stealth = Some 1\<rparr>,
         \<lparr>source = ''C'', target = ''D'', etype = ''system_implicit'', cost = Some 3, stealth = Some 2\<rparr>]\<rparr>"

definition heater_lines :: "dot_line list" where
  "heater_lines =
     [NodeLine ''T_1'' ''motion'', NodeLine ''CH_temp'' ''[Physical] temp'',
      NodeLine ''LOGIC_AND_1'' ''AND'', NodeLine ''A_1'' ''heater on'',
      EdgeLine ''T_1'' ''LOGIC_AND_1'', EdgeLine ''LOGIC_AND_1'' ''A_1'',
      EdgeLine ''A_1'' ''CH_temp'']"

text \<open>A centrality dict that has a nonzero entry for every node, gates and channels
  included.\<close>

definition all_half :: "string list \<Rightarrow> (string \<times> string) list \<Rightarrow> string \<rightharpoonup> rat" where
  "all_half ns es = (\<lambda>k. Some (1 / 2))"

section \<open>Notions of the specification\<close>

text \<open>A tree has no OR branch point when every node that is not typed \<open>AND\<close> has at
  most one child.\<close>

fun no_or_branch :: "graph \<Rightarrow> tree \<Rightarrow> bool" where
  "no_or_branch G (Tree i cs) =
     ((is_and_type G i \<or> length cs \<le> 1) \<and> list_all (no_or_branch G) cs)"

text \<open>
  A sequence is in target-first order when every element is followed by one of its
  direct predecessors.  A branch ends at a node without predecessors, or at a node
  one of whose predecessors already occurs in the sequence (the search was cut there
  by the cycle guard).
\<close>

fun back_chain :: "graph \<Rightarrow> string list \<Rightarrow> bool" where
  "back_chain G (x # y # r) = (y \<in> set (predecessors G x) \<and> back_chain G (y # r))"
| "back_chain G r = True"

definition branch_end :: "graph \<Rightarrow> string list \<Rightarrow> bool" where
  "branch_end G p =
     (predecessors G (last p) = [] \<or> (\<exists>x \<in> set (predecessors G (last p)). x \<in> set p))"

text \<open>What holds of a list \<open>q\<close> that the call with \<open>c\<close> and \<open>path\<close> appends: the cycle
  guard appends \<open>path\<close> itself, every other branch extends \<open>c # path\<close> at the front.\<close>

definition emitted_ok :: "graph \<Rightarrow> string \<Rightarrow> string list \<Rightarrow> string list \<Rightarrow> bool" where
  "emitted_ok G c path q =
     ((if c \<in> set path then q = path else \<exists>pre. q = pre @ c # path)
      \<and> back_chain G (rev q) \<and> branch_end G (rev q))"

text \<open>
  The values the specification aggregates over: the stealth, or the cost, of the
  edge a hop names, where the edge exists and has the attribute; and the arithmetic
  mean of a list of values, undefined for the empty list.
\<close>

fun defined_stealth :: "edge_dict \<Rightarrow> hop \<Rightarrow> int list" where
  "defined_stealth ed (Atom src, dst) =
     (case ed (src, dst) of None \<Rightarrow> []
      | Some e \<Rightarrow> (case stealth e of None \<Rightarrow> [] | Some v \<Rightarrow> [v]))"
| "defined_stealth ed (Nest xs, dst) = []"

fun defined_cost :: "edge_dict \<Rightarrow> hop \<Rightarrow> rat list" where
  "defined_cost ed (Atom src, dst) =
     (case ed (src, dst) of None \<Rightarrow> []
      | Some e \<Rightarrow> (case cost e of None \<Rightarrow> [] | Some v \<Rightarrow> [v]))"
| "defined_cost ed (Nest xs, dst) = []"

definition mean_of :: "int list \<Rightarrow> rat option" where
  "mean_of vs = (if vs = [] then None else Some (of_int (sum_list vs) / of_nat (length vs)))"

definition stealth_mean :: "edge_dict \<Rightarrow> hop list \<Rightarrow> rat option" where
  "stealth_mean ed hops = mean_of (concat (map (defined_stealth ed) hops))"

text \<open>The node types \<^verbatim>\<open>parse_dot\<close> assigns, and the ordered pairs of the edge lines of
  a file, one per line.\<close>

definition node_types :: "string set" where
  "node_types = {''physical_channel'', ''system_channel'', ''channel'', ''action'', ''trigger'',
                 ''AND'', ''OR'', ''logic''}"

fun edge_pairs :: "dot_line list \<Rightarrow> (string \<times> string) list" where
  "edge_pairs [] = []"
| "edge_pairs (EdgeLine src tgt # ls) = (src, tgt) # edge_pairs ls"
| "edge_pairs (l # ls) = edge_pairs ls"

text \<open>
  The shape of the structures \<^verbatim>\<open>get_paths_as_lists\<close> returns: a non-empty list of node
  ids, or one list of such structures (the branches of an AND gate) followed by a
  non-empty list of node ids.
\<close>

fun shaped :: "pstruct \<Rightarrow> bool" where
  "shaped (Atom s) = False"
| "shaped (Nest []) = False"
| "shaped (Nest (Atom s # xs)) = list_all (\<lambda>x. \<not> is_list x) xs"
| "shaped (Nest (Nest bs # xs)) =
     (bs \<noteq> [] \<and> list_all shaped bs \<and> xs \<noteq> [] \<and> list_all (\<lambda>x. \<not> is_list x) xs)"

section \<open>The floating-point model\<close>

text \<open>\<open>floor_log2\<close> is the integer part of the binary logarithm, so \<open>to_double\<close> rounds on
  the grid of the binary64 numbers; each rounding step is off by at most half a grid
  step.\<close>

lemma bit_length_bounds: "0 < n \<Longrightarrow> 2 ^ (bit_length n - 1) \<le> n \<and> n < 2 ^ bit_length n"
proof (induction n rule: bit_length.induct)
  case (1 n)
  show ?case
  proof (cases "n div 2 = 0")
    case True
    with "1.prems" have "n = 1" by (simp add: div_eq_0_iff) 
    then show ?thesis by (simp add: bit_length.simps [of "Suc 0"] bit_length.simps [of 0])
  next
    case False
    then have pos: "0 < n div 2" by simp
    from "1.IH" [OF _ pos] "1.prems"
    have ih: "2 ^ (bit_length (n div 2) - 1) \<le> n div 2" "n div 2 < 2 ^ bit_length (n div 2)"
      by simp_all
    have bl: "bit_length n = Suc (bit_length (n div 2))"
      using "1.prems" by (subst bit_length.simps) simp
    have "0 < bit_length (n div 2)"
      using pos by (subst bit_length.simps) simp
    then obtain k where k: "bit_length (n div 2) = Suc k" by (cases "bit_length (n div 2)") auto
    from ih show ?thesis unfolding bl k by simp linarith
  qed
qed

lemma floor_log2_bounds:
  assumes "0 < a"
  shows "2 powi floor_log2 a \<le> a" and "a < 2 powi (floor_log2 a + 1)"
proof -
  have "2 powi floor_log2 a \<le> a \<and> a < 2 powi (floor_log2 a + 1)"
  proof (cases "1 \<le> a")
    case True
    define n where "n = nat \<lfloor>a\<rfloor>"
    from True have pos: "0 < n" unfolding n_def by (simp add: le_floor_iff)
    from True have below: "rat_of_nat n \<le> a" unfolding n_def by simp
    have "a < of_int \<lfloor>a\<rfloor> + 1" by linarith
    also have "\<dots> = of_nat (n + 1)" using True unfolding n_def by simp
    finally have above: "a < rat_of_nat (n + 1)" .
    define k where "k = bit_length n - 1"
    have "0 < bit_length n" using pos by (subst bit_length.simps) simp
    then have bl: "bit_length n = Suc k" unfolding k_def by simp
    from bit_length_bounds [OF pos] have "2 ^ k \<le> n" "n + 1 \<le> 2 ^ Suc k"
      unfolding bl by simp_all
    then have "rat_of_nat (2 ^ k) \<le> of_nat n" "rat_of_nat (n + 1) \<le> of_nat (2 ^ Suc k)"
      unfolding of_nat_le_iff by simp_all
    then have "(2::rat) ^ k \<le> of_nat n" "rat_of_nat (n + 1) \<le> 2 ^ Suc k"
      by simp_all
    with below above have "(2::rat) ^ k \<le> a" "a < 2 ^ Suc k" by linarith+
    moreover have "floor_log2 a = int k"
      unfolding floor_log2_def using True bl by (simp add: n_def)
    moreover have "int k + 1 = int (Suc k)" by simp
    ultimately show ?thesis
      by (simp only: power_int_of_nat) 
  next
    case False
    define N where "N = \<lceil>1 / a\<rceil>"
    define n where "n = nat (N - 1)"
    from False assms have y: "1 < 1 / a" by simp
    then have N: "2 \<le> N" unfolding N_def by (simp add: le_ceiling_iff)
    then have pos: "0 < n" unfolding n_def by simp
    have N_n: "N = int n + 1" using N unfolding n_def by simp
    have "1 / a \<le> of_int N" unfolding N_def by (rule le_of_int_ceiling)
    then have upper: "1 / a \<le> rat_of_nat (n + 1)" unfolding N_n by simp
    have "of_int (N - 1) < 1 / a" unfolding N_def by linarith
    then have lower: "rat_of_nat n < 1 / a" unfolding N_n by simp
    define k where "k = bit_length n - 1"
    have "0 < bit_length n" using pos by (subst bit_length.simps) simp
    then have bl: "bit_length n = Suc k" unfolding k_def by simp
    from bit_length_bounds [OF pos] have "2 ^ k \<le> n" "n + 1 \<le> 2 ^ Suc k"
      unfolding bl by simp_all
    then have "rat_of_nat (2 ^ k) \<le> of_nat n" "rat_of_nat (n + 1) \<le> of_nat (2 ^ Suc k)"
      unfolding of_nat_le_iff by simp_all
    then have "(2::rat) ^ k \<le> of_nat n" "rat_of_nat (n + 1) \<le> 2 ^ Suc k"
      by simp_all
    with lower upper have b: "(2::rat) ^ k < 1 / a" "1 / a \<le> 2 ^ Suc k" by linarith+
    have pk: "(0::rat) < 2 ^ k" "(0::rat) < 2 ^ Suc k" by simp_all
    from b(2) assms pk(2) have one: "1 / 2 ^ Suc k \<le> a"
      by (simp only: pos_divide_le_eq pos_le_divide_eq mult.commute) 
    from b(1) assms pk(1) have two: "a < 1 / 2 ^ k"
      by (simp only: pos_divide_less_eq pos_less_divide_eq mult.commute)
    have fl: "floor_log2 a = - int (Suc k)"
      unfolding floor_log2_def using False bl by (simp add: N_def n_def)
    have e1: "(2::rat) powi (- int (Suc k)) = 1 / 2 ^ Suc k"
      by (simp only: power_int_minus_divide power_int_of_nat)
    have "- int (Suc k) + 1 = - int k" by simp
    then have e2: "(2::rat) powi (- int (Suc k) + 1) = 1 / 2 ^ k"
      by (simp only: power_int_minus_divide power_int_of_nat)
    from one two show ?thesis
      unfolding fl e1 e2 by simp
  qed
  then show "2 powi floor_log2 a \<le> a" and "a < 2 powi (floor_log2 a + 1)"
    by simp_all
qed

lemma round_half_even_close: "\<bar>of_int (round_half_even y) - y\<bar> \<le> 1 / 2"
proof -
  define d where "d = y - of_int \<lfloor>y\<rfloor>"
  have d: "0 \<le> d" "d < 1" unfolding d_def by linarith+
  have y: "y = of_int \<lfloor>y\<rfloor> + d" unfolding d_def by simp
  consider "d < 1 / 2" | "1 / 2 < d" | "d = 1 / 2" by linarith
  then show ?thesis
  proof cases
    case 1
    then have "round_half_even y = \<lfloor>y\<rfloor>"
      by (simp add: round_half_even_def Let_def d_def)
    with 1 d show ?thesis by (subst (2) y) simp
  next
    case 2
    then have "round_half_even y = \<lfloor>y\<rfloor> + 1"
      by (simp add: round_half_even_def Let_def d_def)
    with 2 d show ?thesis by (subst (2) y) simp
  next
    case 3
    then have "round_half_even y = \<lfloor>y\<rfloor> \<or> round_half_even y = \<lfloor>y\<rfloor> + 1"
      by (simp add: round_half_even_def Let_def d_def)
    moreover from 3 have "y - of_int \<lfloor>y\<rfloor> = 1 / 2" by (simp add: d_def)
    ultimately show ?thesis by (elim disjE; simp; linarith)
  qed
qed

lemma nearest_thousandth_close: "\<bar>nearest_thousandth x - x\<bar> \<le> 1 / 2000"
proof -
  have "nearest_thousandth x - x = (of_int (round_half_even (x * 1000)) - x * 1000) / 1000"
    by (simp add: nearest_thousandth_def diff_divide_distrib)
  then have "\<bar>nearest_thousandth x - x\<bar>
               = \<bar>of_int (round_half_even (x * 1000)) - x * 1000\<bar> / 1000"
    by (simp only: abs_divide)
  also have "\<dots> \<le> (1 / 2) / 1000"
    using round_half_even_close [of "x * 1000"] by (intro divide_right_mono) simp_all
  finally show ?thesis by simp
qed

lemma to_double_close: "\<bar>to_double x - x\<bar> \<le> max (\<bar>x\<bar> / 2 ^ 53) (1 / 2 ^ 1075)"
proof (cases "x = 0")
  case True
  then show ?thesis by (simp add: to_double_def)
next
  case False
  define p where "p = floor_log2 \<bar>x\<bar>"
  define e where "e = max (p - 52) (- 1074)"
  define s :: rat where "s = 2 powi e"
  have s: "0 < s" unfolding s_def by (simp add: power_int_def)
  have td: "to_double x = of_int (round_half_even (x / s)) * s"
    using False by (simp add: to_double_def Let_def p_def e_def s_def)
  have "to_double x - x = (of_int (round_half_even (x / s)) - x / s) * s"
    unfolding td using s by (simp add: left_diff_distrib)
  then have "\<bar>to_double x - x\<bar> = \<bar>of_int (round_half_even (x / s)) - x / s\<bar> * s"
    using s by (simp add: abs_mult)
  also have "\<dots> \<le> (1 / 2) * s"
    using round_half_even_close [of "x / s"] s by (intro mult_right_mono) simp_all
  finally have half: "\<bar>to_double x - x\<bar> \<le> s / 2" by simp
  show ?thesis
  proof (cases "- 1074 \<le> p - 52")
    case True
    then have "e = p - 52" unfolding e_def by simp
    then have "s = 2 powi p / 2 ^ 52"
      unfolding s_def by (simp add: power_int_diff)
    then have "s / 2 = 2 powi p / 2 ^ 53" by simp
    moreover from False have "2 powi p \<le> \<bar>x\<bar>"
      unfolding p_def by (intro floor_log2_bounds) simp
    then have "2 powi p / 2 ^ 53 \<le> \<bar>x\<bar> / 2 ^ 53"
      by (rule divide_right_mono) simp
    ultimately have "\<bar>to_double x - x\<bar> \<le> \<bar>x\<bar> / 2 ^ 53"
      using half by linarith
    then show ?thesis by (rule max.coboundedI1)
  next
    case False
    then have "e = - 1074" unfolding e_def by simp
    then have "s = 1 / 2 ^ 1074"
      unfolding s_def by (simp add: power_int_minus_divide)
    then have "s / 2 = 1 / 2 ^ 1075" by simp
    with half have "\<bar>to_double x - x\<bar> \<le> 1 / 2 ^ 1075" by linarith
    then show ?thesis by (rule max.coboundedI2)
  qed
qed

text \<open>Together: for a mean of ordinary size the three roundings of
  \<^verbatim>\<open>round(sum / len, 3)\<close> stay within half a thousandth of it, up to the error of the
  two conversions to \<^verbatim>\<open>float\<close>.\<close>

lemma rounded_mean_close:
  assumes "\<bar>m\<bar> \<le> 2 ^ 20"
  shows "\<bar>to_double (nearest_thousandth (to_double m)) - m\<bar> \<le> 1 / 2000 + 1 / 2 ^ 30"
proof -
  define x where "x = to_double m"
  define k where "k = nearest_thousandth x"
  define r where "r = to_double k"
  have tiny: "(1::rat) / 2 ^ 1075 \<le> 1 / 2 ^ 33"
    by (intro divide_left_mono power_increasing) simp_all
  have "\<bar>m\<bar> / 2 ^ 53 \<le> 2 ^ 20 / 2 ^ 53"
    using assms by (rule divide_right_mono) simp
  also have "\<dots> = (1::rat) / 2 ^ 33" by simp
  finally have "max (\<bar>m\<bar> / 2 ^ 53) (1 / 2 ^ 1075) \<le> 1 / 2 ^ 33"
    using tiny by simp
  with to_double_close [of m] have xm: "\<bar>x - m\<bar> \<le> 1 / 2 ^ 33"
    unfolding x_def by linarith
  have kx: "\<bar>k - x\<bar> \<le> 1 / 2000"
    unfolding k_def by (rule nearest_thousandth_close)
  from xm kx assms have "\<bar>k\<bar> \<le> 2 ^ 20 + 1 / 2 ^ 33 + 1 / 2000" by linarith
  also have "\<dots> \<le> 2 ^ 21" by simp
  finally have "\<bar>k\<bar> / 2 ^ 53 \<le> 2 ^ 21 / 2 ^ 53"
    by (rule divide_right_mono) simp
  also have "\<dots> = (1::rat) / 2 ^ 32" by simp
  finally have "max (\<bar>k\<bar> / 2 ^ 53) (1 / 2 ^ 1075) \<le> 1 / 2 ^ 32"
    using tiny by simp
  with to_double_close [of k] have rk: "\<bar>r - k\<bar> \<le> 1 / 2 ^ 32"
    unfolding r_def by linarith
  have "(1::rat) / 2 ^ 33 + 1 / 2 ^ 32 \<le> 1 / 2 ^ 30" by simp
  with xm kx rk have "\<bar>r - m\<bar> \<le> 1 / 2000 + 1 / 2 ^ 30" by linarith
  then show ?thesis unfolding r_def k_def x_def .
qed

text \<open>The values the examples need.\<close>

lemma divide_five_by_two: "true_divide 5 2 = Inr (5 / 2)"
  by code_simp

lemma round_five_halves: "py_round3 (5 / 2) = 5 / 2"
  by code_simp

lemma divide_four_by_three: "true_divide 4 3 = Inr (6004799503160661 / 4503599627370496)"
  by code_simp

lemma round_four_thirds:
  "py_round3 (6004799503160661 / 4503599627370496) = 6003298303284871 / 4503599627370496"
  by code_simp

text \<open>
  A tie of the exact mean is decided by the \<^verbatim>\<open>float\<close>: \<open>87/80 = 1.0875\<close> lies halfway
  between \<open>1.087\<close> and \<open>1.088\<close>, the \<^verbatim>\<open>float\<close> nearest to it lies below it, and
  \<^verbatim>\<open>round(87 / 80, 3)\<close> is the \<^verbatim>\<open>float\<close> nearest to \<open>1.087\<close>.
\<close>

lemma divide_87_by_80:
  "true_divide 87 80 = Inr (2448832297382707 / 2251799813685248)
   \<and> (2448832297382707 / 2251799813685248 :: rat) < 87 / 80"
  by code_simp

lemma round_87_80ths:
  "py_round3 (2448832297382707 / 2251799813685248) = 4895412794951729 / 4503599627370496
   \<and> to_double (1087 / 1000) = 4895412794951729 / 4503599627370496"
  by code_simp

section \<open>The linear chain\<close>

lemma chain_predecessors:
  assumes "edges G = chain_edges"
  shows "predecessors G ''T'' = [''B'']" "predecessors G ''B'' = [''A'']" "predecessors G ''A'' = []"
  using assms
  by (simp_all add: predecessors_def build_predecessor_map_def chain_edges_def add_pred_def)

lemma chain_backward_paths:
  assumes "edges G = chain_edges" "\<not> is_and_type G ''A''" "\<not> is_and_type G ''B''"
  shows "find_paths_recursive G ''T'' [] = [[''A'', ''B'', ''T'']]"
proof -
  note preds = chain_predecessors [OF assms(1)]
  have a: "find_paths_recursive G ''A'' [''B'', ''T''] = [[''A'', ''B'', ''T'']]"
    by (subst find_paths_recursive.simps) (simp add: preds)
  have b: "find_paths_recursive G ''B'' [''T''] = [[''A'', ''B'', ''T'']]"
    by (subst find_paths_recursive.simps) (simp add: preds assms a is_and_case_def)
  show ?thesis
    by (subst find_paths_recursive.simps) (simp add: preds assms b is_and_case_def)
qed

lemma chain_structure:
  assumes "edges G = chain_edges" "nodes_info G ''T'' \<noteq> None"
    "\<not> is_and_type G ''A''" "\<not> is_and_type G ''B''" "\<not> is_and_type G ''T''"
  shows "get_paths_as_lists G ''T'' = [Nest [Atom ''A'', Atom ''B'', Atom ''T'']]"
  using assms
  by (simp add: get_paths_as_lists_def find_all_paths_to_target_def chain_backward_paths
      build_forest_from_paths_def)

lemma chain_edge_dict:
  assumes "edges G = chain_edges"
  shows "snd (load_graph_info G) (''A'', ''B'') = Some (chain_edges ! 0)"
    and "snd (load_graph_info G) (''B'', ''T'') = Some (chain_edges ! 1)"
  using assms by (simp_all add: load_graph_info_def chain_edges_def)

lemma chain_graph_facts:
  "edges chain_graph = chain_edges" "nodes_info chain_graph ''T'' \<noteq> None"
  "\<not> is_and_type chain_graph ''A''" "\<not> is_and_type chain_graph ''B''"
  "\<not> is_and_type chain_graph ''T''"
  by (simp_all add: chain_graph_def nodes_info_def is_and_type_def plain_node_def)

text \<open>
  C1.  In a graph whose only edges are \<open>A \<rightarrow> B\<close> (cost 5, stealth 3) and \<open>B \<rightarrow> T\<close>
  (cost 3, stealth 2), where \<open>T\<close> is a declared node and none of the three nodes is
  typed \<open>AND\<close>, \<^verbatim>\<open>get_paths_as_lists\<close> for target \<open>T\<close> returns exactly one path; its
  extracted hops are \<open>[(A,B),(B,T)]\<close>, and \<^verbatim>\<open>analyze_path\<close> scores it with total cost 8,
  average stealth 2.5 and path length 2.
\<close>

theorem chain_one_path_scored:
  assumes "edges G = chain_edges" and "nodes_info G ''T'' \<noteq> None"
    and "\<not> is_and_type G ''A''" and "\<not> is_and_type G ''B''" and "\<not> is_and_type G ''T''"
  shows "get_paths_as_lists G ''T'' = [Nest [Atom ''A'', Atom ''B'', Atom ''T'']]
     \<and> map (\<lambda>p. snd (extract_hops p)) (get_paths_as_lists G ''T'')
         = [[(Atom ''A'', ''B''), (Atom ''B'', ''T'')]]
     \<and> map (\<lambda>p. analyze_path p (fst (load_graph_info G)) (snd (load_graph_info G)))
           (get_paths_as_lists G ''T'')
         = [Inr (8, Some (5 / 2), 2,
                 calc_path_centrality (Nest [Atom ''A'', Atom ''B'', Atom ''T''])
                   (fst (load_graph_info G)))]"
  using chain_edge_dict [OF assms(1)]
  by (simp add: chain_structure [OF assms] analyze_path_def calc_path_cost_def
      calc_path_stealth_def calc_path_length_def divide_five_by_two round_five_halves
      chain_edges_def
      startswith_def)

theorem chain_one_path_scored_witness:
  "get_paths_as_lists chain_graph ''T'' = [Nest [Atom ''A'', Atom ''B'', Atom ''T'']]
     \<and> map (\<lambda>p. analyze_path p (fst (load_graph_info chain_graph))
                  (snd (load_graph_info chain_graph)))
           (get_paths_as_lists chain_graph ''T'')
         = [Inr (8, Some (5 / 2), 2, Some 0)]"
proof -
  have "calc_path_centrality (Nest [Atom ''A'', Atom ''B'', Atom ''T''])
          (fst (load_graph_info chain_graph)) = Some 0"
    by (simp add: calc_path_centrality_def load_graph_info_def chain_graph_def plain_node_def)
  moreover note scored = chain_one_path_scored [OF chain_graph_facts]
  moreover from scored
  have "get_paths_as_lists chain_graph ''T'' = [Nest [Atom ''A'', Atom ''B'', Atom ''T'']]"
    by (rule conjunct1)
  ultimately show ?thesis
    by simp
qed

section \<open>Unknown target\<close>

text \<open>
  C8.  For a target id that is not the id of any node, \<^verbatim>\<open>find_all_paths_to_target\<close>
  returns the empty list and so does \<^verbatim>\<open>get_paths_as_lists\<close>; both are plain
  returns, no exception is involved.
\<close>

theorem unknown_target_no_paths:
  assumes "nodes_info G target_id = None"
  shows "find_all_paths_to_target G target_id = [] \<and> get_paths_as_lists G target_id = []"
  using assms by (simp add: find_all_paths_to_target_def get_paths_as_lists_def)

theorem unknown_target_no_paths_witness:
  "nodes_info chain_graph ''X'' = None \<and> find_all_paths_to_target chain_graph ''X'' = []
     \<and> get_paths_as_lists chain_graph ''X'' = []"
proof -
  have h: "nodes_info chain_graph ''X'' = None"
    by (simp add: nodes_info_def chain_graph_def plain_node_def)
  from unknown_target_no_paths [OF h] h show ?thesis by simp
qed

section \<open>Splitting a tree without OR branch points\<close>

lemma concat_singletons: "(\<And>x. x \<in> set xs \<Longrightarrow> f x = [x]) \<Longrightarrow> concat (map f xs) = xs"
  by (induction xs) auto

text \<open>
  C6.  A tree in which no node other than an AND gate has more than one child is
  returned by \<^verbatim>\<open>_split_tree_at_or_nodes\<close> as the only element of the result, unchanged.
\<close>

theorem split_without_or_branch:
  "no_or_branch G t \<Longrightarrow> split_tree_at_or_nodes G t = [t]"
proof (induction t)
  case (Tree i cs)
  have each: "\<And>c. c \<in> set cs \<Longrightarrow> split_tree_at_or_nodes G c = [c]"
    using Tree by (simp add: list_all_iff)
  have whole: "concat (map (split_tree_at_or_nodes G) cs) = cs"
    by (rule concat_singletons) (rule each)
  show ?case
  proof (cases "is_and_type G i")
    case True
    then show ?thesis by (simp add: whole)
  next
    case False
    with Tree.prems have "length cs \<le> 1" by simp
    then have "cs = [] \<or> (\<exists>c. cs = [c])"
      by (cases cs) auto
    with False show ?thesis using whole by auto
  qed
qed

theorem split_without_or_branch_witness:
  "no_or_branch (and_graph ''G'')
     (Tree ''T'' [Tree ''G'' [Tree ''P1'' [], Tree ''Q'' [Tree ''P2'' []]]])
   \<and> split_tree_at_or_nodes (and_graph ''G'')
       (Tree ''T'' [Tree ''G'' [Tree ''P1'' [], Tree ''Q'' [Tree ''P2'' []]]])
     = [Tree ''T'' [Tree ''G'' [Tree ''P1'' [], Tree ''Q'' [Tree ''P2'' []]]]]"
proof -
  have h: "no_or_branch (and_graph ''G'')
     (Tree ''T'' [Tree ''G'' [Tree ''P1'' [], Tree ''Q'' [Tree ''P2'' []]]])"
    by (simp add: is_and_type_def nodes_info_def and_graph_def plain_node_def)
  from split_without_or_branch [OF h] h show ?thesis by simp
qed

section \<open>The AND gate with a one-hop and a two-hop branch\<close>

lemma and_predecessors:
  assumes "map (\<lambda>e. (source e, target e)) (edges G) = and_pairs g"
    and "g \<noteq> []" and "g \<notin> {''P1'', ''P2'', ''Q'', ''T''}"
  shows "predecessors G ''T'' = [g]" "predecessors G g = [''P1'', ''Q'']"
    "predecessors G ''Q'' = [''P2'']" "predecessors G ''P1'' = []" "predecessors G ''P2'' = []"
  using assms
  by (auto simp add: predecessors_def build_predecessor_map_def add_pred_def and_pairs_def)

lemma and_backward_paths:
  assumes e: "map (\<lambda>e. (source e, target e)) (edges G) = and_pairs g"
    and g: "g \<noteq> []" "g \<notin> {''P1'', ''P2'', ''Q'', ''T''}"
    and "is_and_type G g" "\<not> is_and_type G ''P2''"
  shows "find_paths_recursive G ''T'' [] = [[''P1'', g, ''T''], [''P2'', ''Q'', g, ''T'']]"
proof -
  note preds = and_predecessors [OF e g]
  from g have ne: "''P1'' \<noteq> g" "''P2'' \<noteq> g" "''Q'' \<noteq> g" "''T'' \<noteq> g" by auto
  have p1: "find_paths_recursive G ''P1'' [g, ''T''] = [[''P1'', g, ''T'']]"
    by (subst find_paths_recursive.simps) (simp add: preds ne)
  have p2: "find_paths_recursive G ''P2'' [''Q'', g, ''T''] = [[''P2'', ''Q'', g, ''T'']]"
    by (subst find_paths_recursive.simps) (simp add: preds ne)
  have q: "find_paths_recursive G ''Q'' [g, ''T''] = [[''P2'', ''Q'', g, ''T'']]"
    by (subst find_paths_recursive.simps) (simp add: preds assms p2 is_and_case_def ne)
  show ?thesis
    by (subst find_paths_recursive.simps) (simp add: preds assms p1 q is_and_case_def)
qed

lemma and_structure:
  assumes e: "map (\<lambda>e. (source e, target e)) (edges G) = and_pairs g"
    and g: "g \<noteq> []" "g \<notin> {''P1'', ''P2'', ''Q'', ''T''}"
    and t: "nodes_info G ''T'' \<noteq> None"
    and a: "is_and_type G g" "\<not> is_and_type G ''P1''" "\<not> is_and_type G ''P2''"
      "\<not> is_and_type G ''Q''" "\<not> is_and_type G ''T''"
  shows "get_paths_as_lists G ''T''
           = [Nest [Nest [Nest [Atom ''P2'', Atom ''Q''], Nest [Atom ''P1'']], Atom g, Atom ''T'']]"
proof -
  from g have ne: "''P1'' \<noteq> g" "''P2'' \<noteq> g" "''Q'' \<noteq> g" "''T'' \<noteq> g"
    "g \<noteq> ''P1''" "g \<noteq> ''P2''" "g \<noteq> ''Q''" "g \<noteq> ''T''" by auto
  show ?thesis
    using t a ne
    by (simp add: get_paths_as_lists_def find_all_paths_to_target_def
        and_backward_paths [OF e g a(1) a(3)] build_forest_from_paths_def)
qed

lemma and_graph_facts:
  assumes "g \<noteq> []" and "g \<notin> {''P1'', ''P2'', ''Q'', ''T''}"
  shows "map (\<lambda>e. (source e, target e)) (edges (and_graph g)) = and_pairs g"
    and "g \<noteq> []" and "g \<notin> {''P1'', ''P2'', ''Q'', ''T''}"
    and "nodes_info (and_graph g) ''T'' \<noteq> None"
    and "is_and_type (and_graph g) g" and "\<not> is_and_type (and_graph g) ''P1''"
    and "\<not> is_and_type (and_graph g) ''P2''" and "\<not> is_and_type (and_graph g) ''Q''"
    and "\<not> is_and_type (and_graph g) ''T''"
  using assms
  by (auto simp add: and_graph_def and_pairs_def nodes_info_def is_and_type_def plain_node_def)

text \<open>
  C3, as the code has it.  In a graph with the edges \<open>P1 \<rightarrow> g\<close>, \<open>P2 \<rightarrow> Q\<close>, \<open>Q \<rightarrow> g\<close>
  and \<open>g \<rightarrow> T\<close>, where the gate \<open>g\<close> is typed \<open>AND\<close> and is the only predecessor of
  the declared target \<open>T\<close>, the one path structure returned for \<open>T\<close> holds the two
  branches side by side.  \<^verbatim>\<open>calc_path_length\<close> of it is \<open>max 1 2 + 1 = 3\<close> when the id of
  the gate does not start with \<^verbatim>\<open>LOGIC_\<close>, and 2 when it does: \<^verbatim>\<open>_count_logic_nodes\<close>
  takes every id with that prefix off the count.
\<close>

theorem and_gate_length:
  assumes "map (\<lambda>e. (source e, target e)) (edges G) = and_pairs g"
    and "g \<noteq> []" and "g \<notin> {''P1'', ''P2'', ''Q'', ''T''}"
    and "nodes_info G ''T'' \<noteq> None"
    and "is_and_type G g" and "\<not> is_and_type G ''P1''" and "\<not> is_and_type G ''P2''"
    and "\<not> is_and_type G ''Q''" and "\<not> is_and_type G ''T''"
  shows "get_paths_as_lists G ''T''
           = [Nest [Nest [Nest [Atom ''P2'', Atom ''Q''], Nest [Atom ''P1'']], Atom g, Atom ''T'']]
    \<and> map calc_path_length (get_paths_as_lists G ''T'')
        = [if startswith g ''LOGIC_'' then 2 else 3]"
  by (simp add: and_structure [OF assms] calc_path_length_def startswith_def)

theorem and_gate_length_witness:
  "get_paths_as_lists (and_graph ''G'') ''T''
           = [Nest [Nest [Nest [Atom ''P2'', Atom ''Q''], Nest [Atom ''P1'']], Atom ''G'', Atom ''T'']]
    \<and> map calc_path_length (get_paths_as_lists (and_graph ''G'') ''T'') = [3]"
proof -
  have g: "''G'' \<noteq> []" "''G'' \<notin> {''P1'', ''P2'', ''Q'', ''T''}" by simp_all
  have plain_id: "(if startswith ''G'' ''LOGIC_'' then 2 else 3) = (3 :: int)"
    by (simp add: startswith_def)
  show ?thesis
    using and_gate_length [OF and_graph_facts [OF g]] unfolding plain_id .
qed

text \<open>
  The claim as the specification words it, length 3 for an AND gate, fails for a gate
  named as \<^verbatim>\<open>parse_dot\<close> names every gate it types \<open>AND\<close>, with the prefix \<^verbatim>\<open>LOGIC_\<close>.
\<close>

theorem and_gate_length_logic_id:
  "is_and_type (and_graph ''LOGIC_AND_1'') ''LOGIC_AND_1''
   \<and> predecessors (and_graph ''LOGIC_AND_1'') ''T'' = [''LOGIC_AND_1'']
   \<and> get_paths_as_lists (and_graph ''LOGIC_AND_1'') ''T''
       = [Nest [Nest [Nest [Atom ''P2'', Atom ''Q''], Nest [Atom ''P1'']],
                Atom ''LOGIC_AND_1'', Atom ''T'']]
   \<and> map calc_path_length (get_paths_as_lists (and_graph ''LOGIC_AND_1'') ''T'') = [2]"
proof -
  have g: "''LOGIC_AND_1'' \<noteq> []" "''LOGIC_AND_1'' \<notin> {''P1'', ''P2'', ''Q'', ''T''}"
    by simp_all
  note facts = and_graph_facts [OF g]
  show ?thesis
    by (simp add: and_structure [OF facts] and_predecessors [OF facts(1-3)] facts(5)
        calc_path_length_def startswith_def)
qed

section \<open>Order and ends of the enumerated paths\<close>

lemma back_chain_snoc:
  "back_chain G (xs @ [c]) = (back_chain G xs \<and> (xs = [] \<or> c \<in> set (predecessors G (last xs))))"
  by (induction G xs rule: back_chain.induct) auto

lemma emitted_ok_step:
  assumes "emitted_ok G p (xs @ c # path) q" and "c \<notin> set path"
  shows "emitted_ok G c path q"
proof -
  from assms(1) have "\<exists>pre. q = pre @ c # path"
    by (auto simp: emitted_ok_def split: if_splits intro: exI [of _ xs])
  with assms show ?thesis by (simp add: emitted_ok_def)
qed

lemma find_paths_emitted:
  assumes "q \<in> set (find_paths_recursive G c path)"
    and "back_chain G (rev path)"
    and "path = [] \<or> c \<in> set (predecessors G (hd path))"
  shows "emitted_ok G c path q"
  using assms
proof (induction G c path rule: find_paths_recursive.induct)
  case (1 G c path)
  let ?ps = "predecessors G c"
  have "back_chain G (rev path @ [c])"
    unfolding back_chain_snoc using "1.prems"(2,3) by (auto simp: last_rev)
  then have chain_c: "back_chain G (rev (c # path))" by simp
  show ?case
  proof (cases "c \<in> set path")
    case True
    with "1.prems"(1) have q: "q = path"
      by (subst (asm) find_paths_recursive.simps) simp
    from True have ne: "path \<noteq> []" by auto
    with "1.prems"(3) have "c \<in> set (predecessors G (hd path))" by simp
    with True ne "1.prems"(2) show ?thesis
      unfolding q emitted_ok_def branch_end_def by (auto simp: last_rev)
  next
    case fresh: False
    show ?thesis
    proof (cases "?ps = []")
      case True
      with fresh "1.prems"(1) have q: "q = c # path"
        by (subst (asm) find_paths_recursive.simps) simp
      show ?thesis
        unfolding q emitted_ok_def branch_end_def using chain_c True fresh by (simp add: last_rev)
    next
      case some: False
      show ?thesis
      proof (cases "is_and_case G ?ps")
        case gate: True
        let ?g = "hd ?ps"
        from some have g_pred: "?g \<in> set ?ps" by simp
        have "back_chain G (rev (c # path) @ [?g])"
          unfolding back_chain_snoc using chain_c g_pred by (simp add: last_rev)
        then have chain_g: "back_chain G (rev (?g # c # path))" by simp
        show ?thesis
        proof (cases "predecessors G ?g = []")
          case True
          with fresh some gate "1.prems"(1) have q: "q = ?g # c # path"
            by (subst (asm) find_paths_recursive.simps) simp
          have "branch_end G (rev (?g # c # path))"
            unfolding branch_end_def using True by (simp add: last_rev)
          with chain_g fresh show ?thesis
            unfolding q emitted_ok_def by (auto intro: exI [of _ "[?g]"])
        next
          case inputs: False
          with fresh some gate "1.prems"(1)
          obtain i where i: "i \<in> set (predecessors G ?g)"
            and qi: "q \<in> set (find_paths_recursive G i (?g # c # path))"
            by (subst (asm) find_paths_recursive.simps) auto
          have "emitted_ok G i (?g # c # path) q"
            using "1.IH"(1) [OF fresh some gate inputs i qi chain_g] i by simp
          then show ?thesis
            using emitted_ok_step [of G i "[?g]" c path q] fresh by simp
        qed
      next
        case plain: False
        with fresh some "1.prems"(1)
        obtain p where p: "p \<in> set ?ps"
          and qp: "q \<in> set (find_paths_recursive G p (c # path))"
          by (subst (asm) find_paths_recursive.simps) auto
        have "emitted_ok G p (c # path) q"
          using "1.IH"(2) [OF fresh some plain p qp chain_c] p by simp
        then show ?thesis
          using emitted_ok_step [of G p "[]" c path q] fresh by simp
      qed
    qed
  qed
qed

text \<open>
  C2, as the code has it.  Every sequence returned by \<^verbatim>\<open>find_all_paths_to_target\<close> is
  in target-first order: it is not empty, its first element is the target, every
  element is followed by one of its direct predecessors, and its last element is a
  node without predecessors or a node one of whose predecessors already occurs in the
  sequence.  (The recursion builds each list source-first by prepending, and
  \<^verbatim>\<open>find_all_paths_to_target\<close> reverses it.)
\<close>

theorem paths_target_first:
  "\<forall>p \<in> set (find_all_paths_to_target G t).
     p \<noteq> [] \<and> hd p = t \<and> back_chain G p \<and> branch_end G p"
proof
  fix p
  assume "p \<in> set (find_all_paths_to_target G t)"
  then obtain q where q: "q \<in> set (find_paths_recursive G t [])" and p: "p = rev q"
    by (auto simp: find_all_paths_to_target_def split: if_splits)
  from find_paths_emitted [OF q] have ok: "emitted_ok G t [] q" by simp
  then obtain pre where "q = pre @ [t]" by (auto simp: emitted_ok_def)
  then have "q \<noteq> []" "last q = t" by simp_all
  then show "p \<noteq> [] \<and> hd p = t \<and> back_chain G p \<and> branch_end G p"
    using ok unfolding p emitted_ok_def by (simp add: hd_rev)
qed


theorem paths_target_first_witness:
  "[''T'', ''B'', ''A''] \<in> set (find_all_paths_to_target chain_graph ''T'')
     \<and> hd [''T'', ''B'', ''A''] = ''T'' \<and> back_chain chain_graph [''T'', ''B'', ''A'']
     \<and> branch_end chain_graph [''T'', ''B'', ''A'']"
proof -
  have m: "[''T'', ''B'', ''A''] \<in> set (find_all_paths_to_target chain_graph ''T'')"
    using chain_graph_facts
    by (simp add: find_all_paths_to_target_def chain_backward_paths)
  with paths_target_first [of chain_graph "''T''"] show ?thesis
    by blast
qed

text \<open>
  The claim as the specification words it fails on the linear chain: the sequence
  returned for \<open>T\<close> starts at \<open>T\<close>, which has the predecessor \<open>B\<close>, and ends at \<open>A\<close>.
\<close>

theorem paths_not_source_first:
  "find_all_paths_to_target chain_graph ''T'' = [[''T'', ''B'', ''A'']]
     \<and> predecessors chain_graph (hd [''T'', ''B'', ''A'']) = [''B'']
     \<and> last [''T'', ''B'', ''A''] \<noteq> ''T''"
  using chain_graph_facts
  by (simp add: find_all_paths_to_target_def chain_backward_paths chain_predecessors)

section \<open>Termination and recursion depth of the path search\<close>

text \<open>
  \<open>find_paths_recursive\<close> is a total function: its termination proof above rests on
  \<open>unvisited\<close>, the number of nodes (edge sources, and the current node) not yet on
  the accumulated path, which every recursive call decreases.  The lemmas below bound
  the depth of the recursion through \<open>find_paths_bounded\<close>.
\<close>

lemma cycle_guard: "c \<in> set path \<Longrightarrow> find_paths_recursive G c path = [path]"
  by (subst find_paths_recursive.simps) simp

lemma collect_map_Some:
  "(\<And>x. x \<in> set xs \<Longrightarrow> f x = Some (g x)) \<Longrightarrow> collect (map f xs) = Some (concat (map g xs))"
  by (induction xs) auto

lemma bounded_by_unvisited:
  "unvisited G c path < n \<Longrightarrow>
     find_paths_bounded n G c path = Some (find_paths_recursive G c path)"
proof (induction G c path arbitrary: n rule: find_paths_recursive.induct)
  case (1 G c path)
  from "1.prems" obtain m where n: "n = Suc m" by (cases n) auto
  let ?ps = "predecessors G c"
  let ?g = "hd ?ps"
  show ?case
  proof (cases "c \<in> set path \<or> ?ps = []")
    case True
    then show ?thesis
      unfolding n by (subst find_paths_recursive.simps) auto
  next
    case False
    then have fresh: "c \<notin> set path" and some: "?ps \<noteq> []" by simp_all
    show ?thesis
    proof (cases "is_and_case G ?ps")
      case gate: True
      show ?thesis
      proof (cases "predecessors G ?g = []")
        case True
        with fresh some gate show ?thesis
          unfolding n by (subst find_paths_recursive.simps) simp
      next
        case inputs: False
        have "find_paths_bounded m G i (?g # c # path)
                = Some (find_paths_recursive G i (?g # c # path))"
          if i: "i \<in> set (predecessors G ?g)" for i
        proof (rule "1.IH"(1) [OF fresh some gate inputs i])
          from unvisited_step_and [where g = "hd (predecessors G c)", OF fresh predecessors_sources [OF i]]
            "1.prems"
          show "unvisited G i (?g # c # path) < m" unfolding n by linarith
        qed
        then have "collect (map (\<lambda>i. find_paths_bounded m G i (?g # c # path)) (predecessors G ?g))
            = Some (concat (map (\<lambda>i. find_paths_recursive G i (?g # c # path)) (predecessors G ?g)))"
          by (rule collect_map_Some)
        with fresh some gate inputs show ?thesis
          unfolding n by (subst find_paths_recursive.simps) simp
      qed
    next
      case plain: False
      have "find_paths_bounded m G p (c # path) = Some (find_paths_recursive G p (c # path))"
        if p: "p \<in> set ?ps" for p
      proof (rule "1.IH"(2) [OF fresh some plain p])
        from unvisited_step [OF fresh predecessors_sources [OF p]] "1.prems"
        show "unvisited G p (c # path) < m" unfolding n by linarith
      qed
      then have "collect (map (\<lambda>p. find_paths_bounded m G p (c # path)) ?ps)
            = Some (concat (map (\<lambda>p. find_paths_recursive G p (c # path)) ?ps))"
        by (rule collect_map_Some)
      with fresh some plain show ?thesis
        unfolding n by (subst find_paths_recursive.simps) simp
    qed
  qed
qed

lemma some_branch_extends:
  "\<exists>q \<in> set (find_paths_recursive G c path). set path \<subseteq> set q"
proof (induction G c path rule: find_paths_recursive.induct)
  case (1 G c path)
  let ?ps = "predecessors G c"
  let ?g = "hd ?ps"
  show ?case
  proof (cases "c \<in> set path \<or> ?ps = []")
    case True
    then show ?thesis
      by (subst find_paths_recursive.simps) auto
  next
    case False
    then have fresh: "c \<notin> set path" and some: "?ps \<noteq> []" by simp_all
    show ?thesis
    proof (cases "is_and_case G ?ps")
      case gate: True
      show ?thesis
      proof (cases "predecessors G ?g = []")
        case True
        with fresh some gate show ?thesis
          by (subst find_paths_recursive.simps) auto
      next
        case inputs: False
        then obtain i where i: "i \<in> set (predecessors G ?g)"
          by (cases "predecessors G ?g") auto
        from "1.IH"(1) [OF fresh some gate inputs i]
        obtain q where "q \<in> set (find_paths_recursive G i (?g # c # path))" "set path \<subseteq> set q"
          by auto
        with fresh some gate inputs i show ?thesis
          by (subst find_paths_recursive.simps) auto
      qed
    next
      case plain: False
      from some obtain p where p: "p \<in> set ?ps" by (cases ?ps) auto
      from "1.IH"(2) [OF fresh some plain p]
      obtain q where "q \<in> set (find_paths_recursive G p (c # path))" "set path \<subseteq> set q"
        by auto
      with fresh some plain p show ?thesis
        by (subst find_paths_recursive.simps) auto
    qed
  qed
qed

lemma bounded_by_branches:
  "(\<And>q. q \<in> set (find_paths_recursive G c path) \<Longrightarrow> card (set q) < n + card (set path)) \<Longrightarrow>
     find_paths_bounded n G c path = Some (find_paths_recursive G c path)"
proof (induction G c path arbitrary: n rule: find_paths_recursive.induct)
  case (1 G c path)
  from some_branch_extends [of G c path]
  obtain q0 where "q0 \<in> set (find_paths_recursive G c path)" "set path \<subseteq> set q0" by auto
  with "1.prems" [of q0] have "card (set path) < n + card (set path)"
    using card_mono [of "set q0" "set path"] by simp
  then obtain m where n: "n = Suc m" by (cases n) auto
  let ?ps = "predecessors G c"
  let ?g = "hd ?ps"
  show ?case
  proof (cases "c \<in> set path \<or> ?ps = []")
    case True
    then show ?thesis
      unfolding n by (subst find_paths_recursive.simps) auto
  next
    case False
    then have fresh: "c \<notin> set path" and some: "?ps \<noteq> []" by simp_all
    show ?thesis
    proof (cases "is_and_case G ?ps")
      case gate: True
      show ?thesis
      proof (cases "predecessors G ?g = []")
        case True
        with fresh some gate show ?thesis
          unfolding n by (subst find_paths_recursive.simps) simp
      next
        case inputs: False
        have grow: "Suc (card (set path)) \<le> card (set (?g # c # path))"
          using fresh card_mono [of "set (?g # c # path)" "set (c # path)"] by auto
        have "find_paths_bounded m G i (?g # c # path)
                = Some (find_paths_recursive G i (?g # c # path))"
          if i: "i \<in> set (predecessors G ?g)" for i
        proof (rule "1.IH"(1) [OF fresh some gate inputs i])
          fix q
          assume "q \<in> set (find_paths_recursive G i (?g # c # path))"
          with fresh some gate inputs i have "q \<in> set (find_paths_recursive G c path)"
            by (subst find_paths_recursive.simps) auto
          from "1.prems" [OF this] grow
          show "card (set q) < m + card (set (?g # c # path))" unfolding n by linarith
        qed
        then have "collect (map (\<lambda>i. find_paths_bounded m G i (?g # c # path)) (predecessors G ?g))
            = Some (concat (map (\<lambda>i. find_paths_recursive G i (?g # c # path)) (predecessors G ?g)))"
          by (rule collect_map_Some)
        with fresh some gate inputs show ?thesis
          unfolding n by (subst find_paths_recursive.simps) simp
      qed
    next
      case plain: False
      have "find_paths_bounded m G p (c # path) = Some (find_paths_recursive G p (c # path))"
        if p: "p \<in> set ?ps" for p
      proof (rule "1.IH"(2) [OF fresh some plain p])
        fix q
        assume "q \<in> set (find_paths_recursive G p (c # path))"
        with fresh some plain p have "q \<in> set (find_paths_recursive G c path)"
          by (subst find_paths_recursive.simps) auto
        from "1.prems" [OF this] fresh
        show "card (set q) < m + card (set (c # path))" unfolding n by simp
      qed
      then have "collect (map (\<lambda>p. find_paths_bounded m G p (c # path)) ?ps)
            = Some (concat (map (\<lambda>p. find_paths_recursive G p (c # path)) ?ps))"
        by (rule collect_map_Some)
      with fresh some plain show ?thesis
        unfolding n by (subst find_paths_recursive.simps) simp
    qed
  qed
qed

lemma cycle_graph_predecessors:
  "predecessors cycle_graph ''X'' = [''Y'']" "predecessors cycle_graph ''Y'' = [''X'']"
  by (simp_all add: predecessors_def build_predecessor_map_def add_pred_def cycle_graph_def)

lemma cycle_graph_not_and:
  "\<not> is_and_case cycle_graph [''X'']" "\<not> is_and_case cycle_graph [''Y'']"
  by (simp_all add: is_and_case_def is_and_type_def nodes_info_def cycle_graph_def plain_node_def)

lemma cycle_graph_paths: "find_paths_recursive cycle_graph ''X'' [] = [[''Y'', ''X'']]"
proof -
  have x: "find_paths_recursive cycle_graph ''X'' [''Y'', ''X''] = [[''Y'', ''X'']]"
    by (rule cycle_guard) simp
  have y: "find_paths_recursive cycle_graph ''Y'' [''X''] = [[''Y'', ''X'']]"
    by (subst find_paths_recursive.simps)
       (simp add: cycle_graph_predecessors cycle_graph_not_and x)
  show ?thesis
    by (subst find_paths_recursive.simps)
       (simp add: cycle_graph_predecessors cycle_graph_not_and y)
qed

text \<open>
  C7.  The cycle guard returns the accumulated path unchanged, without a further
  call, as soon as the current node occurs in it.  The search needs no more nested
  calls than one more than the number of distinct nodes on its longest branch: with
  a limit \<open>n\<close> that exceeds the number of distinct nodes of every branch (counted
  from the nodes already on the accumulated path), the limited search returns, and
  returns what the unlimited one does.  In particular any limit above the number of
  nodes not yet on the path suffices, whatever cycles the graph has.
\<close>

theorem find_paths_depth_bounded:
  "(c \<in> set path \<longrightarrow> find_paths_recursive G c path = [path])
   \<and> ((\<forall>q \<in> set (find_paths_recursive G c path). card (set q) < n + card (set path))
        \<longrightarrow> find_paths_bounded n G c path = Some (find_paths_recursive G c path))
   \<and> (unvisited G c path < n
        \<longrightarrow> find_paths_bounded n G c path = Some (find_paths_recursive G c path))"
  using cycle_guard [of c path G] bounded_by_branches [of G c path n]
    bounded_by_unvisited [of G c path n]
  by blast

theorem find_paths_depth_bounded_witness:
  "''X'' \<in> set [''Y'', ''X'']
   \<and> find_paths_recursive cycle_graph ''X'' [''Y'', ''X''] = [[''Y'', ''X'']]
   \<and> card (set [''Y'', ''X'']) < 3 + card (set ([] :: string list))
   \<and> find_paths_bounded 3 cycle_graph ''X'' [] = Some [[''Y'', ''X'']]"
proof -
  have guard: "''X'' \<in> set [''Y'', ''X'']" by simp
  have branches: "\<forall>q \<in> set (find_paths_recursive cycle_graph ''X'' []).
      card (set q) < 3 + card (set ([] :: string list))"
    by (simp add: cycle_graph_paths)
  from find_paths_depth_bounded [of "''X''" "[''Y'', ''X'']" cycle_graph 3] guard
  have "find_paths_recursive cycle_graph ''X'' [''Y'', ''X''] = [[''Y'', ''X'']]"
    by blast
  moreover from find_paths_depth_bounded [of "''X''" "[]" cycle_graph 3] branches
  have "find_paths_bounded 3 cycle_graph ''X'' [] = Some [[''Y'', ''X'']]"
    by (simp add: cycle_graph_paths)
  ultimately show ?thesis by simp
qed

text \<open>The bound is met on the two-node cycle: two nested calls are not enough.\<close>

lemma cycle_graph_depth_tight: "find_paths_bounded 2 cycle_graph ''X'' [] = None"
  by (simp add: numeral_2_eq_2 cycle_graph_predecessors cycle_graph_not_and)

section \<open>Hops of the structures the path search returns\<close>

text \<open>
  A hop can have a list as its first component only where two lists stand side by
  side inside a list that also holds a node id; looking such a hop up raises
  \<^verbatim>\<open>TypeError\<close>.  No structure returned by \<^verbatim>\<open>get_paths_as_lists\<close> has that form: every
  hop extracted from one starts at a node id.
\<close>

lemma adjacent_lists_raise:
  "snd (extract_hops (Nest [Atom ''X'', Nest [Atom ''A''], Nest [Atom ''B'']]))
     = [(Atom ''X'', ''A''), (Atom ''A'', ''B''), (Nest [Atom ''B''], ''B'')]
   \<and> calc_path_cost (Nest [Atom ''X'', Nest [Atom ''A''], Nest [Atom ''B'']]) ed = Inl TypeError"
  by (simp add: calc_path_cost_def split: option.splits)

lemma shaped_snoc: "shaped (Nest zs) \<Longrightarrow> shaped (Nest (zs @ [Atom i]))"
  by (cases "Nest zs" rule: shaped.cases) auto

lemma shaped_is_list: "shaped p \<Longrightarrow> is_list p"
  by (cases p) auto

lemma converted_shaped: "shaped (reverse_nested_list (Nest (convert_tree_to_list G t)))"
proof (induction G t rule: convert_tree_to_list.induct)
  case (1 G i)
  then show ?case by simp
next
  case (2 G i c cs)
  show ?case
  proof (cases "is_and_type G i")
    case True
    with "2.IH"(1) show ?thesis
      by (auto simp: list_all_iff)
  next
    case False
    with "2.IH"(2) have "shaped (Nest (map reverse_nested_list (rev (convert_tree_to_list G c))))"
      by simp
    from shaped_snoc [OF this, of i] False show ?thesis by simp
  qed
qed

lemma atoms_loop:
  "list_all (\<lambda>x. \<not> is_list x) xs \<Longrightarrow> prev = None \<or> (\<exists>a. prev = Some (Atom a)) \<Longrightarrow>
     \<forall>h \<in> set (hops_loop prev xs). \<not> is_list (fst h)"
proof (induction xs arbitrary: prev)
  case Nil
  then show ?case by simp
next
  case (Cons x xs)
  from Cons.prems(1) obtain s where x: "x = Atom s" by (cases x) auto
  from Cons.prems(1) have "list_all (\<lambda>x. \<not> is_list x) xs" by simp
  from Cons.IH [OF this, of "Some (Atom s)"]
  have "\<forall>h \<in> set (hops_loop (Some (Atom s)) xs). \<not> is_list (fst h)" by simp
  with Cons.prems(2) show ?case unfolding x by auto
qed

lemma shaped_hops: "shaped p \<Longrightarrow> \<forall>h \<in> set (snd (extract_hops p)). \<not> is_list (fst h)"
proof (induction p rule: shaped.induct)
  case (1 s)
  then show ?case by simp
next
  case 2
  then show ?case by simp
next
  case (3 s xs)
  then have "\<forall>h \<in> set (hops_loop None (Atom s # xs)). \<not> is_list (fst h)"
    by (intro atoms_loop) simp_all
  then show ?case by simp
next
  case (4 bs xs)
  from "4.prems" obtain a rest where xs: "xs = Atom a # rest"
    and rest: "list_all (\<lambda>x. \<not> is_list x) rest"
    by (cases xs; cases "hd xs") auto
  from "4.prems" have bs: "bs \<noteq> []" "list_all shaped bs" by simp_all
  then have all_lists: "list_all is_list bs"
    by (auto simp: list_all_iff dest: shaped_is_list)
  have inner: "\<forall>h \<in> set (snd (extract_hops (Nest bs))). \<not> is_list (fst h)"
  proof -
    have "\<forall>h \<in> set (snd (extract_hops b)). \<not> is_list (fst h)" if "b \<in> set bs" for b
      using "4.IH" [OF that] that bs(2) by (simp add: list_all_iff)
    with bs(1) all_lists show ?thesis
      by (cases bs) auto
  qed
  have tail: "\<forall>h \<in> set (hops_loop (Some (Atom a)) (Atom a # rest)). \<not> is_list (fst h)"
    using rest by (intro atoms_loop) simp_all
  have "snd (extract_hops (Nest (Nest bs # xs))) = hops_loop None (Nest bs # xs)"
    unfolding xs by simp
  with inner tail show ?case
    unfolding xs by auto
qed

lemma pipeline_hops_start_at_ids:
  assumes "p \<in> set (get_paths_as_lists G target_id)"
  shows "\<forall>h \<in> set (snd (extract_hops p)). \<not> is_list (fst h)"
proof -
  from assms obtain t where "p = reverse_nested_list (Nest (convert_tree_to_list G t))"
    by (auto simp: get_paths_as_lists_def Let_def split: if_splits)
  then show ?thesis
    using shaped_hops [OF converted_shaped [of G t]] by simp
qed

section \<open>Stealth and cost of a path structure\<close>

text \<open>When no hop has a list as its first component, neither loop raises; each
  collects the defined values in hop order.\<close>

lemma stealth_loop_atoms:
  "\<forall>h \<in> set hs. \<not> is_list (fst h) \<Longrightarrow>
     stealth_loop ed hs acc = Inr (acc @ concat (map (defined_stealth ed) hs))"
proof (induction hs arbitrary: acc)
  case Nil
  then show ?case by simp
next
  case (Cons h hs)
  obtain src dst where h: "h = (src, dst)" by (cases h)
  with Cons.prems obtain s where s: "src = Atom s" by (cases src) auto
  from Cons.prems have "\<forall>h \<in> set hs. \<not> is_list (fst h)" by simp
  from Cons.IH [OF this] show ?case
    unfolding h s by (simp split: option.splits)
qed

lemma cost_loop_atoms:
  "\<forall>h \<in> set hs. \<not> is_list (fst h) \<Longrightarrow>
     cost_loop ed hs t = Inr (t + sum_list (concat (map (defined_cost ed) hs)))"
proof (induction hs arbitrary: t)
  case Nil
  then show ?case by simp
next
  case (Cons h hs)
  obtain src dst where h: "h = (src, dst)" by (cases h)
  with Cons.prems obtain s where s: "src = Atom s" by (cases src) auto
  from Cons.prems have "\<forall>h \<in> set hs. \<not> is_list (fst h)" by simp
  from Cons.IH [OF this] show ?case
    unfolding h s by (simp split: option.splits)
qed

lemma slow_dict:
  "snd (load_graph_info slow_graph) (''A'', ''B'')
     = Some \<lparr>source = ''A'', target = ''B'', etype = ''explicit'', cost = Some 1, stealth = Some 1\<rparr>"
  "snd (load_graph_info slow_graph) (''B'', ''C'')
     = Some \<lparr>source = ''B'', target = ''C'', etype = ''explicit'', cost = Some 1, stealth = Some 1\<rparr>"
  "snd (load_graph_info slow_graph) (''C'', ''D'')
     = Some \<lparr>source = ''C'', target = ''D'', etype = ''system_implicit'', cost = Some 3, stealth = Some 2\<rparr>"
  by (simp_all add: load_graph_info_def slow_graph_def)

text \<open>
  Where the exact mean is a tie between two thousandths, the \<^verbatim>\<open>float\<close> nearest to the
  mean decides: a mean of \<open>87/80\<close> (80 hops, seven of stealth 2 and the others of
  stealth 1) gives the \<^verbatim>\<open>float\<close> nearest to \<open>1.087\<close>.
\<close>

lemma tie_follows_the_float:
  assumes "\<forall>h \<in> set (snd (extract_hops path)). \<not> is_list (fst h)"
    and "stealth_mean ed (snd (extract_hops path)) = Some (87 / 80)"
  shows "calc_path_stealth path ed = Inr (Some (4895412794951729 / 4503599627370496))"
proof -
  from assms(2) obtain vs where vs: "concat (map (defined_stealth ed) (snd (extract_hops path))) = vs"
    and ne: "vs \<noteq> []" and q: "rat_of_int (sum_list vs) / rat_of_nat (length vs) = 87 / 80"
    by (auto simp: stealth_mean_def mean_of_def split: if_splits)
  have "rat_of_int 87 / rat_of_int 80 = 87 / 80" by simp
  then have "true_divide (sum_list vs) (int (length vs)) = true_divide 87 80"
    by (simp only: true_divide_def of_int_of_nat_eq q)
  with divide_87_by_80 round_87_80ths ne show ?thesis
    by (simp add: calc_path_stealth_def stealth_loop_atoms [OF assms(1)] vs)
qed

text \<open>
  C4, as the code has it.  For a path structure whose extracted hops all start at a
  node id, \<^verbatim>\<open>calc_path_stealth\<close> returns \<^verbatim>\<open>None\<close> when no hop has a defined stealth
  value.  Otherwise it returns \<^verbatim>\<open>round(sum / len, 3)\<close>: the arithmetic mean of the
  defined stealth values is rounded to a \<^verbatim>\<open>float\<close>, that \<^verbatim>\<open>float\<close> to three decimal
  places, and the decimal number to a \<^verbatim>\<open>float\<close> again; a mean beyond the range of a
  \<^verbatim>\<open>float\<close> raises \<^verbatim>\<open>OverflowError\<close>.
\<close>

theorem stealth_is_rounded_mean:
  assumes "\<forall>h \<in> set (snd (extract_hops path)). \<not> is_list (fst h)"
  shows "calc_path_stealth path ed
           = (case stealth_mean ed (snd (extract_hops path)) of
                None \<Rightarrow> Inr None
              | Some m \<Rightarrow>
                  if 2 ^ 1024 \<le> \<bar>to_double m\<bar> then Inl OverflowError
                  else Inr (Some (to_double (nearest_thousandth (to_double m)))))"
  by (simp add: calc_path_stealth_def stealth_loop_atoms [OF assms] stealth_mean_def mean_of_def
      true_divide_def py_round3_def)

theorem stealth_is_rounded_mean_witness:
  "snd (extract_hops (Nest [Atom ''A'', Atom ''B'', Atom ''C'', Atom ''D'']))
     = [(Atom ''A'', ''B''), (Atom ''B'', ''C''), (Atom ''C'', ''D'')]
   \<and> calc_path_stealth (Nest [Atom ''A'', Atom ''B'', Atom ''C'', Atom ''D''])
       (snd (load_graph_info slow_graph))
       = Inr (Some (6003298303284871 / 4503599627370496))
   \<and> calc_path_stealth (Nest [Atom ''A'', Atom ''B'', Atom ''C'', Atom ''D'']) Map.empty
       = Inr None"
proof -
  let ?p = "Nest [Atom ''A'', Atom ''B'', Atom ''C'', Atom ''D'']"
  have hops: "snd (extract_hops ?p) = [(Atom ''A'', ''B''), (Atom ''B'', ''C''), (Atom ''C'', ''D'')]"
    by simp
  then have atoms: "\<forall>h \<in> set (snd (extract_hops ?p)). \<not> is_list (fst h)"
    by simp
  have mean: "stealth_mean (snd (load_graph_info slow_graph)) (snd (extract_hops ?p)) = Some (4 / 3)"
    unfolding hops by (simp add: stealth_mean_def mean_of_def slow_dict)
  have first: "to_double (4 / 3) = 6004799503160661 / 4503599627370496"
    using divide_four_by_three by (simp add: true_divide_def split: if_splits)
  have in_range: "\<not> (2 ^ 1024 \<le> \<bar>to_double (4 / 3)\<bar>)"
    using divide_four_by_three by (simp add: true_divide_def split: if_splits)
  have last: "to_double (nearest_thousandth (6004799503160661 / 4503599627370496))
                = 6003298303284871 / 4503599627370496"
    using round_four_thirds by (simp add: py_round3_def)
  have "calc_path_stealth ?p (snd (load_graph_info slow_graph))
          = Inr (Some (6003298303284871 / 4503599627370496))"
    unfolding stealth_is_rounded_mean [OF atoms] mean using in_range
    by (simp only: option.case if_False first last)
  moreover have "stealth_mean Map.empty (snd (extract_hops ?p)) = None"
    unfolding hops by (simp add: stealth_mean_def mean_of_def)
  then have "calc_path_stealth ?p Map.empty = Inr None"
    unfolding stealth_is_rounded_mean [OF atoms] by simp
  ultimately show ?thesis using hops by simp
qed

text \<open>
  The claim as the specification words it, the plain mean, fails on three hops with
  stealth 1, 1 and 2: the mean is \<open>4/3\<close>, the \<^verbatim>\<open>float\<close> nearest to the mean is
  \<open>6004799503160661 / 2 ^ 52\<close>, and the value returned is the \<^verbatim>\<open>float\<close> nearest to
  \<open>1.333\<close>, which is neither.
\<close>

theorem stealth_not_plain_mean:
  "calc_path_stealth (Nest [Atom ''A'', Atom ''B'', Atom ''C'', Atom ''D''])
     (snd (load_graph_info slow_graph)) = Inr (Some (6003298303284871 / 4503599627370496))
   \<and> stealth_mean (snd (load_graph_info slow_graph))
       (snd (extract_hops (Nest [Atom ''A'', Atom ''B'', Atom ''C'', Atom ''D'']))) = Some (4 / 3)
   \<and> true_divide 4 3 = Inr (6004799503160661 / 4503599627370496)
   \<and> to_double (1333 / 1000) = 6003298303284871 / 4503599627370496"
proof -
  have "to_double (1333 / 1000) = 6003298303284871 / 4503599627370496"
    by code_simp
  then show ?thesis
    by (simp add: calc_path_stealth_def stealth_mean_def mean_of_def slow_dict
        divide_four_by_three round_four_thirds)
qed

text \<open>
  C10.  For a path structure whose extracted hops start at node ids and none of
  which names an edge with a defined cost (a structure without hops among them),
  \<^verbatim>\<open>calc_path_cost\<close> returns the number 0; its result is a number, never \<^verbatim>\<open>None\<close>.
\<close>

theorem no_cost_is_zero:
  assumes "\<forall>h \<in> set (snd (extract_hops path)). \<not> is_list (fst h) \<and> defined_cost ed h = []"
  shows "calc_path_cost path ed = Inr 0"
proof -
  from assms have none: "concat (map (defined_cost ed) (snd (extract_hops path))) = []"
    by (simp add: concat_eq_Nil_conv)
  from assms have atoms: "\<forall>h \<in> set (snd (extract_hops path)). \<not> is_list (fst h)"
    by simp
  show ?thesis
    unfolding calc_path_cost_def cost_loop_atoms [OF atoms] none by simp
qed


theorem no_cost_is_zero_witness:
  "snd (extract_hops (Nest [Atom ''P1'', Atom ''G''])) = [(Atom ''P1'', ''G'')]
   \<and> \<not> is_list (Atom ''P1'')
   \<and> defined_cost (snd (load_graph_info (and_graph ''G''))) (Atom ''P1'', ''G'') = []
   \<and> calc_path_cost (Nest [Atom ''P1'', Atom ''G'']) (snd (load_graph_info (and_graph ''G''))) = Inr 0
   \<and> snd (extract_hops (Nest [Atom ''T''])) = []
   \<and> calc_path_cost (Nest [Atom ''T'']) (snd (load_graph_info (and_graph ''G''))) = Inr 0"
proof -
  let ?ed = "snd (load_graph_info (and_graph ''G''))"
  have hops: "snd (extract_hops (Nest [Atom ''P1'', Atom ''G''])) = [(Atom ''P1'', ''G'')]"
    by simp
  have none: "defined_cost ?ed (Atom ''P1'', ''G'') = []"
    by (simp add: load_graph_info_def and_graph_def)
  have "\<forall>h \<in> set (snd (extract_hops (Nest [Atom ''P1'', Atom ''G'']))).
          \<not> is_list (fst h) \<and> defined_cost ?ed h = []"
    unfolding hops using none by simp
  from no_cost_is_zero [OF this]
  have one: "calc_path_cost (Nest [Atom ''P1'', Atom ''G'']) ?ed = Inr 0" .
  have "\<forall>h \<in> set (snd (extract_hops (Nest [Atom ''T'']))).
          \<not> is_list (fst h) \<and> defined_cost ?ed h = []"
    by simp
  from no_cost_is_zero [OF this]
  have "calc_path_cost (Nest [Atom ''T'']) ?ed = Inr 0" .
  with one none show ?thesis by simp
qed

section \<open>The graph built by parse_dot\<close>

lemma node_type_of_known: "node_type_of i l = Some t \<Longrightarrow> t \<in> node_types"
  by (auto simp: node_type_of_def node_types_def split: if_splits)

lemma dict_set_subset: "set (dict_set k v ps) \<subseteq> insert (k, v) (set ps)"
  by (induction ps) auto

lemma parse_line_types:
  assumes "\<forall>p \<in> set (fst st). Type (snd p) \<in> node_types"
  shows "\<forall>p \<in> set (fst (parse_line l st)). Type (snd p) \<in> node_types"
proof (cases st)
  case (Pair ns es)
  show ?thesis
  proof (cases l)
    case (NodeLine i lab)
    show ?thesis
    proof (cases "node_type_of i lab")
      case None
      with assms Pair NodeLine show ?thesis by simp
    next
      case (Some t)
      let ?n = "\<lparr>ID = i, Label = lab, Type = t, Target = [], Source = [], centrality = Some 0\<rparr>"
      from Some have "t \<in> node_types" by (rule node_type_of_known)
      with assms Pair have "\<forall>p \<in> insert (i, ?n) (set ns). Type (snd p) \<in> node_types"
        by simp
      with dict_set_subset [of i ?n ns] show ?thesis
        unfolding Pair NodeLine using Some by auto
    qed
  qed (use assms Pair in simp_all)
qed

lemma fold_parse_line_types:
  "\<forall>p \<in> set (fst st). Type (snd p) \<in> node_types \<Longrightarrow>
     \<forall>p \<in> set (fst (fold parse_line ls st)). Type (snd p) \<in> node_types"
proof (induction ls arbitrary: st)
  case Nil
  then show ?case by simp
next
  case (Cons l ls)
  from parse_line_types [OF Cons.prems, of l]
  have "\<forall>p \<in> set (fst (fold parse_line ls (parse_line l st))). Type (snd p) \<in> node_types"
    by (rule Cons.IH)
  then show ?case by simp
qed

lemma add_links_types: "map (\<lambda>p. Type (snd p)) (add_links e ns) = map (\<lambda>p. Type (snd p)) ns"
  by (simp add: add_links_def case_prod_beta)

lemma fold_add_links_types:
  "map (\<lambda>p. Type (snd p)) (fold add_links es ns) = map (\<lambda>p. Type (snd p)) ns"
  by (induction es arbitrary: ns) (simp_all add: add_links_types)

lemma set_centrality_type: "Type (snd (set_centrality cm p)) = Type (snd p)"
  by (cases p) (simp add: set_centrality_def)

lemma set_centrality_pinned:
  "Type (snd p) = ''AND'' \<or> is_channel_type (Type (snd p)) \<Longrightarrow>
     centrality (snd (set_centrality cm p)) = Some 0"
  by (cases p) (auto simp: set_centrality_def)

lemma heater_nodes:
  "nodes (parse_dot all_half heater_lines) =
     [\<lparr>ID = ''T_1'', Label = ''motion'', Type = ''trigger'', Target = [''LOGIC_AND_1''],
        Source = [], centrality = Some (1 / 2)\<rparr>,
      \<lparr>ID = ''CH_temp'', Label = ''[Physical] temp'', Type = ''physical_channel'', Target = [],
        Source = [''A_1''], centrality = Some 0\<rparr>,
      \<lparr>ID = ''LOGIC_AND_1'', Label = ''AND'', Type = ''AND'', Target = [''A_1''],
        Source = [''T_1''], centrality = Some 0\<rparr>,
      \<lparr>ID = ''A_1'', Label = ''heater on'', Type = ''action'', Target = [''CH_temp''],
        Source = [''LOGIC_AND_1''], centrality = Some (1 / 2)\<rparr>]"
  by (simp add: parse_dot_def heater_lines_def all_half_def node_type_of_def startswith_def
      edge_record_def add_links_def set_centrality_def is_channel_type_def)

text \<open>
  C9.  In the graph \<^verbatim>\<open>parse_dot\<close> builds from any lines, with any result of the
  centrality computation, every node typed \<open>AND\<close> and every node of a channel type
  has centrality 0, and a node with another centrality is a trigger, an action, an
  \<open>OR\<close> or a \<open>logic\<close> node.
\<close>

theorem gates_and_channels_centrality_zero:
  "\<forall>n \<in> set (nodes (parse_dot bc lines)).
     ((Type n = ''AND'' \<or> is_channel_type (Type n)) \<longrightarrow> centrality n = Some 0)
     \<and> (centrality n \<noteq> Some 0 \<longrightarrow> Type n \<in> {''trigger'', ''action'', ''OR'', ''logic''})"
proof
  fix n
  assume n: "n \<in> set (nodes (parse_dot bc lines))"
  obtain ns es where st: "fold parse_line lines ([], []) = (ns, es)"
    by (cases "fold parse_line lines ([], [])")
  define linked where "linked = fold add_links es ns"
  define cm where "cm = bc (map fst (filter (\<lambda>(k, n). Type n \<noteq> ''AND'') linked))
                            (map (\<lambda>e. (source e, target e)) es)"
  from n obtain p where p: "p \<in> set linked" and np: "n = snd (set_centrality cm p)"
    by (auto simp: parse_dot_def st linked_def cm_def Let_def)
  have "Type (snd p) \<in> set (map (\<lambda>p. Type (snd p)) linked)"
    using p by (simp add: image_iff) blast
  then have "Type (snd p) \<in> set (map (\<lambda>p. Type (snd p)) ns)"
    unfolding linked_def fold_add_links_types .
  then obtain p0 where p0: "p0 \<in> set ns" "Type (snd p0) = Type (snd p)"
    by auto
  from fold_parse_line_types [of "([], [])" lines] st
  have "\<forall>p \<in> set ns. Type (snd p) \<in> node_types" by simp
  with p0 have known: "Type (snd p) \<in> node_types"
    by auto
  have ty: "Type n = Type (snd p)"
    unfolding np by (rule set_centrality_type)
  have pinned: "centrality n = Some 0" if "Type n = ''AND'' \<or> is_channel_type (Type n)"
  proof -
    from that have "Type (snd p) = ''AND'' \<or> is_channel_type (Type (snd p))"
      unfolding ty .
    then show ?thesis
      unfolding np by (rule set_centrality_pinned)
  qed
  moreover have "Type n \<in> {''trigger'', ''action'', ''OR'', ''logic''}" if "centrality n \<noteq> Some 0"
  proof -
    from that pinned have "Type n \<noteq> ''AND''" "\<not> is_channel_type (Type n)" by auto
    with known show ?thesis
      unfolding ty node_types_def is_channel_type_def by auto
  qed
  ultimately show "((Type n = ''AND'' \<or> is_channel_type (Type n)) \<longrightarrow> centrality n = Some 0)
     \<and> (centrality n \<noteq> Some 0 \<longrightarrow> Type n \<in> {''trigger'', ''action'', ''OR'', ''logic''})"
    by blast
qed

theorem gates_and_channels_centrality_zero_witness:
  "nodes (parse_dot all_half heater_lines) ! 2 \<in> set (nodes (parse_dot all_half heater_lines))
   \<and> Type (nodes (parse_dot all_half heater_lines) ! 2) = ''AND''
   \<and> centrality (nodes (parse_dot all_half heater_lines) ! 2) = Some 0
   \<and> nodes (parse_dot all_half heater_lines) ! 0 \<in> set (nodes (parse_dot all_half heater_lines))
   \<and> centrality (nodes (parse_dot all_half heater_lines) ! 0) = Some (1 / 2)
   \<and> Type (nodes (parse_dot all_half heater_lines) ! 0)
       \<in> {''trigger'', ''action'', ''OR'', ''logic''}"
proof -
  let ?ns = "nodes (parse_dot all_half heater_lines)"
  have gate: "?ns ! 2 \<in> set ?ns" "Type (?ns ! 2) = ''AND''"
    by (simp_all add: heater_nodes)
  have trig: "?ns ! 0 \<in> set ?ns" "centrality (?ns ! 0) = Some (1 / 2)"
    by (simp_all add: heater_nodes)
  from gates_and_channels_centrality_zero [of all_half heater_lines] gate
  have "centrality (?ns ! 2) = Some 0" by blast
  moreover from trig have "centrality (?ns ! 0) \<noteq> Some 0" by simp
  with gates_and_channels_centrality_zero [of all_half heater_lines] trig(1)
  have "Type (?ns ! 0) \<in> {''trigger'', ''action'', ''OR'', ''logic''}" by blast
  ultimately show ?thesis using gate trig by blast
qed

lemma edge_record_ends: "source (edge_record ns s t) = s" "target (edge_record ns s t) = t"
  by (simp_all add: edge_record_def)

lemma fold_parse_line_pairs:
  "map (\<lambda>e. (source e, target e)) (snd (fold parse_line ls st))
     = map (\<lambda>e. (source e, target e)) (snd st) @ edge_pairs ls"
proof (induction ls arbitrary: st)
  case Nil
  then show ?case by simp
next
  case (Cons l ls)
  obtain ns es where st: "st = (ns, es)" by (cases st)
  show ?case
    unfolding st by (cases l) (simp_all add: Cons.IH edge_record_ends split: option.splits)
qed

lemma fold_edge_dict:
  "fold (\<lambda>e m. m((source e, target e) \<mapsto> e)) es m0 (s, t)
     = (let found = filter (\<lambda>e. source e = s \<and> target e = t) es
        in if found = [] then m0 (s, t) else Some (last found))"
  by (induction es arbitrary: m0) (auto simp: Let_def)

text \<open>
  C5, as the code has it.  The edge list \<^verbatim>\<open>parse_dot\<close> builds holds one record for
  every edge line, in line order, whether or not the ordered pair occurred before.
  It is \<^verbatim>\<open>load_graph_info\<close> that keeps one record for an ordered pair: its
  \<^verbatim>\<open>edge_dict\<close> maps a pair to the last record of the edge list with that source and
  target, and to nothing when there is none.
\<close>

theorem edges_kept_in_list_collapsed_in_dict:
  "map (\<lambda>e. (source e, target e)) (edges (parse_dot bc lines)) = edge_pairs lines
   \<and> snd (load_graph_info G) (s, t)
       = (let found = filter (\<lambda>e. source e = s \<and> target e = t) (edges G)
          in if found = [] then None else Some (last found))"
proof -
  obtain ns es where st: "fold parse_line lines ([], []) = (ns, es)"
    by (cases "fold parse_line lines ([], [])")
  have "map (\<lambda>e. (source e, target e)) (edges (parse_dot bc lines)) = edge_pairs lines"
    using fold_parse_line_pairs [of lines "([], [])"]
    by (simp add: parse_dot_def Let_def st)
  then show ?thesis
    by (simp add: load_graph_info_def fold_edge_dict)
qed

text \<open>Two edge lines with the same ordered pair give two records in the edge list.\<close>

theorem duplicate_edges_kept:
  "edges (parse_dot (\<lambda>ns es. Map.empty) [EdgeLine ''A_1'' ''T_2'', EdgeLine ''A_1'' ''T_2''])
     = [\<lparr>source = ''A_1'', target = ''T_2'', etype = ''explicit'', cost = Some 1, stealth = Some 1\<rparr>,
        \<lparr>source = ''A_1'', target = ''T_2'', etype = ''explicit'', cost = Some 1, stealth = Some 1\<rparr>]"
  by (simp add: parse_dot_def edge_record_def startswith_def type_or_empty_def)


end
